theory Spec2Isabelle
  imports Complex_Main "HOL-Library.Sublist"
begin

section \<open>Munger Snap: the scoring engine of \<open>logic.py\<close>\<close>

text \<open>
  A shallow embedding of \<open>src/t006_munger_snap/logic.py\<close>. Every function keeps the
  name it has in the source, without the leading underscore.

  \<^item> A Python \<open>str\<close> is a \<open>string\<close>, read as a sequence of code points below 256;
    \<open>str.lower\<close>, \<open>str.strip\<close> and the regular-expression classes \<open>\s\<close> and \<open>\d\<close> are
    written out for that range.
  \<^item> A \<open>dict\<close> is an association list in insertion order (Python iterates in that order).
  \<^item> The operations that can raise (\<open>xs[0]\<close>, \<open>d[k]\<close>, \<open>/\<close>) return \<open>py_error + 'a\<close>.
  \<^item> \<open>float\<close> is not modelled bit by bit. The margin-of-safety filter takes the
    binary64 operations it uses as a parameter (\<open>float_ops\<close>), so what is proved about
    it holds for every rounding; \<open>dec_ops\<close> is one instance, exact on decimals.
    The long-word ratio is an exact rational: for fewer than \<open>2^52\<close> words the binary64
    comparison with \<open>0.2\<close> decides the same.
\<close>

subsection \<open>Strings\<close>

definition lower_char :: "char \<Rightarrow> char" where
  "lower_char c =
     (let n = (of_char c :: nat)
      in if (65 \<le> n \<and> n \<le> 90) \<or> (192 \<le> n \<and> n \<le> 222 \<and> n \<noteq> 215)
         then char_of (n + 32) else c)"

definition py_lower :: "string \<Rightarrow> string" where
  "py_lower s = map lower_char s"

definition is_space :: "char \<Rightarrow> bool" where
  "is_space c =
     (let n = (of_char c :: nat)
      in (9 \<le> n \<and> n \<le> 13) \<or> (28 \<le> n \<and> n \<le> 32) \<or> n = 133 \<or> n = 160)"

definition is_digit :: "char \<Rightarrow> bool" where
  "is_digit c = (let n = (of_char c :: nat) in 48 \<le> n \<and> n \<le> 57)"

definition is_word_char :: "char \<Rightarrow> bool" where
  "is_word_char c =
     (let n = (of_char c :: nat)
      in (97 \<le> n \<and> n \<le> 122) \<or> (65 \<le> n \<and> n \<le> 90) \<or> (48 \<le> n \<and> n \<le> 57) \<or> n = 39)"

definition is_sentence_end :: "char \<Rightarrow> bool" where
  "is_sentence_end c = (c = CHR ''.'' \<or> c = CHR ''!'' \<or> c = CHR ''?'')"

definition newline :: char where
  "newline = CHR 0x0A"

definition strip :: "string \<Rightarrow> string" where
  "strip s = rev (dropWhile is_space (rev (dropWhile is_space s)))"

fun join :: "string \<Rightarrow> string list \<Rightarrow> string" where
  "join sep [] = []"
| "join sep [x] = x"
| "join sep (x # y # ys) = x @ sep @ join sep (y # ys)"

text \<open>
  U+2014 (the dash of three fixed messages) has no code point below 256. The messages
  are output only and never meet input text; the dash stands in them as its UTF-8 bytes.
\<close>

definition em_dash :: string where
  "em_dash = [CHR 0xE2, CHR 0x80, CHR 0x94]"

subsection \<open>Errors\<close>

datatype py_error = IndexError | KeyError | ZeroDivisionError

definition index0 :: "'a list \<Rightarrow> py_error + 'a" where
  "index0 xs = (case xs of [] \<Rightarrow> Inl IndexError | x # _ \<Rightarrow> Inr x)"

definition getitem :: "('k \<times> 'v) list \<Rightarrow> 'k \<Rightarrow> py_error + 'v" where
  "getitem d k = (case map_of d k of None \<Rightarrow> Inl KeyError | Some v \<Rightarrow> Inr v)"

definition true_div :: "nat \<Rightarrow> nat \<Rightarrow> py_error + rat" where
  "true_div a b = (if b = 0 then Inl ZeroDivisionError else Inr (of_nat a / of_nat b))"

subsection \<open>Regular expressions\<close>

text \<open>\<open>re.findall(r"[...]+", s)\<close>: the maximal runs of characters of the class.\<close>

function findall_class :: "(char \<Rightarrow> bool) \<Rightarrow> string \<Rightarrow> string list" where
  "findall_class P s =
     (case dropWhile (\<lambda>c. \<not> P c) s of
        [] \<Rightarrow> []
      | c # cs \<Rightarrow> (c # takeWhile P cs) # findall_class P (dropWhile P cs))"
  by pat_completeness auto
termination
proof (relation "measure (\<lambda>(P, s). length s)")
  show "wf (measure (\<lambda>(P :: char \<Rightarrow> bool, s :: string). length s))" by simp
next
  fix P :: "char \<Rightarrow> bool" and s :: string and c cs
  assume h: "dropWhile (\<lambda>c. \<not> P c) s = c # cs"
  have "length (dropWhile P cs) \<le> length cs" by (rule length_dropWhile_le)
  moreover have "length (c # cs) \<le> length s"
    using length_dropWhile_le [of "\<lambda>c. \<not> P c" s] h by simp
  ultimately show "((P, dropWhile P cs), (P, s)) \<in> measure (\<lambda>(P, s). length s)" by simp
qed

declare findall_class.simps [simp del]

text \<open>\<open>re.split(r"[...]+", s)\<close>: the pieces between the maximal runs of the class.\<close>

function re_split_class :: "(char \<Rightarrow> bool) \<Rightarrow> string \<Rightarrow> string list" where
  "re_split_class P s =
     (case dropWhile (\<lambda>c. \<not> P c) s of
        [] \<Rightarrow> [s]
      | c # cs \<Rightarrow> takeWhile (\<lambda>c. \<not> P c) s # re_split_class P (dropWhile P cs))"
  by pat_completeness auto
termination
proof (relation "measure (\<lambda>(P, s). length s)")
  show "wf (measure (\<lambda>(P :: char \<Rightarrow> bool, s :: string). length s))" by simp
next
  fix P :: "char \<Rightarrow> bool" and s :: string and c cs
  assume h: "dropWhile (\<lambda>c. \<not> P c) s = c # cs"
  have "length (dropWhile P cs) \<le> length cs" by (rule length_dropWhile_le)
  moreover have "length (c # cs) \<le> length s"
    using length_dropWhile_le [of "\<lambda>c. \<not> P c" s] h by simp
  ultimately show "((P, dropWhile P cs), (P, s)) \<in> measure (\<lambda>(P, s). length s)" by simp
qed

declare re_split_class.simps [simp del]

text \<open>
  \<open>re.split(r"\n\s*\n", s)\<close>. A match starts at a newline whose following run of
  white space holds another newline, and (the star being greedy) ends at the last
  newline of that run. \<open>after_blank cs\<close> is the text left after such a match, \<open>cs\<close>
  being what follows its first newline; \<open>find_blank\<close> finds the leftmost match and
  returns the text before and after it.
\<close>

definition after_blank :: "string \<Rightarrow> string" where
  "after_blank cs =
     rev (takeWhile (\<lambda>c. c \<noteq> newline) (rev (takeWhile is_space cs))) @ dropWhile is_space cs"

fun find_blank :: "string \<Rightarrow> (string \<times> string) option" where
  "find_blank [] = None"
| "find_blank (c # cs) =
     (if c = newline \<and> newline \<in> set (takeWhile is_space cs) then Some ([], after_blank cs)
      else (case find_blank cs of None \<Rightarrow> None | Some (b, a) \<Rightarrow> Some (c # b, a)))"

lemma length_after_blank: "length (after_blank cs) \<le> length cs"
proof -
  have "length (rev (takeWhile (\<lambda>c. c \<noteq> newline) (rev (takeWhile is_space cs))))
          \<le> length (takeWhile is_space cs)"
    using length_takeWhile_le [of "\<lambda>c. c \<noteq> newline" "rev (takeWhile is_space cs)"] by simp
  moreover have "length (takeWhile is_space cs) + length (dropWhile is_space cs) = length cs"
    by (metis length_append takeWhile_dropWhile_id)
  ultimately show ?thesis by (simp add: after_blank_def)
qed

lemma find_blank_shorter: "find_blank s = Some (b, a) \<Longrightarrow> length a < length s"
proof (induction s arbitrary: b)
  case Nil
  then show ?case by simp
next
  case (Cons c cs)
  show ?case
  proof (cases "c = newline \<and> newline \<in> set (takeWhile is_space cs)")
    case True
    with Cons.prems have "a = after_blank cs" by simp
    then show ?thesis using length_after_blank [of cs] by simp
  next
    case False
    with Cons.prems obtain b' where "find_blank cs = Some (b', a)"
      by (auto split: option.splits)
    then have "length a < length cs" by (rule Cons.IH)
    then show ?thesis by simp
  qed
qed

function re_split_blank :: "string \<Rightarrow> string list" where
  "re_split_blank s =
     (case find_blank s of None \<Rightarrow> [s] | Some (b, a) \<Rightarrow> b # re_split_blank a)"
  by pat_completeness auto
termination
  by (relation "measure length") (auto dest: find_blank_shorter)

declare re_split_blank.simps [simp del]

text \<open>
  \<open>re.search(r"-?\d+(?:\.\d+)?", s)\<close>, the matched text. \<open>match_unsigned\<close> is the
  match of \<open>\d+(?:\.\d+)?\<close> at the head of a text that starts with a digit.
\<close>

definition match_unsigned :: "string \<Rightarrow> string" where
  "match_unsigned s =
     takeWhile is_digit s @
       (case dropWhile is_digit s of
          c # r \<Rightarrow> (if c = CHR ''.'' \<and> r \<noteq> [] \<and> is_digit (hd r)
                    then c # takeWhile is_digit r else [])
        | [] \<Rightarrow> [])"

fun re_search_number :: "string \<Rightarrow> string option" where
  "re_search_number [] = None"
| "re_search_number (c # cs) =
     (if c = CHR ''-'' \<and> cs \<noteq> [] \<and> is_digit (hd cs) then Some (c # match_unsigned cs)
      else if is_digit c then Some (match_unsigned (c # cs))
      else re_search_number cs)"

subsection \<open>The static keyword tables\<close>

definition MOAT_KEYWORDS :: "(string \<times> string) list" where
  "MOAT_KEYWORDS =
     [(''network effect'', ''Network effects''),
      (''network effects'', ''Network effects''),
      (''switching cost'', ''Switching costs''),
      (''switching costs'', ''Switching costs''),
      (''brand'', ''Brand strength''),
      (''flywheel'', ''Flywheel''),
      (''scale'', ''Scale advantage''),
      (''cost advantage'', ''Cost advantage''),
      (''distribution'', ''Distribution reach''),
      (''regulation'', ''Regulatory license'')]"

definition MANAGEMENT_POSITIVE :: "(string \<times> string) list" where
  "MANAGEMENT_POSITIVE =
     [(''founder-led'', ''Founder-led''),
      (''founder led'', ''Founder-led''),
      (''owner-operator'', ''Owner-operator''),
      (''owner operator'', ''Owner-operator''),
      (''insider ownership'', ''Insider ownership''),
      (''insider-owned'', ''Insider ownership''),
      (''buyback'', ''Buybacks''),
      (''buybacks'', ''Buybacks''),
      (''roic'', ''High ROIC''),
      (''return on capital'', ''Returns on capital''),
      (''capital allocator'', ''Capital allocation''),
      (''capital allocation'', ''Capital allocation''),
      (''skin in the game'', ''Skin in the game'')]"

definition MANAGEMENT_RED_FLAGS :: "(string \<times> string) list" where
  "MANAGEMENT_RED_FLAGS =
     [(''restatement'', ''Accounting restatement''),
      (''probe'', ''Regulatory probe''),
      (''investigation'', ''Investigation''),
      (''fraud'', ''Fraud mention''),
      (''lawsuit'', ''Shareholder lawsuit''),
      (''sec'', ''SEC scrutiny''),
      (''resignation'', ''Leadership turnover'')]"

definition incentives_keywords :: "string list" where
  "incentives_keywords =
     [''bonus'', ''commission'', ''fees'', ''subsidy'', ''rebate'', ''kickback'', ''option'',
      ''equity comp'', ''stock grant'', ''performance pay'', ''founder-led'', ''founder led'',
      ''founder'', ''buyback'', ''buybacks'', ''yield'', ''fcf'', ''owner-operator'',
      ''owner operator'', ''insider ownership'']"

definition social_proof_keywords :: "string list" where
  "social_proof_keywords =
     [''customers'', ''peers'', ''trend'', ''hype'', ''viral'', ''adoption'', ''reference'',
      ''case study'', ''industry standard'', ''partnership'', ''network effect'',
      ''network effects'', ''switching cost'', ''switching costs'', ''integrations'',
      ''integration'', ''community'']"

definition commitment_keywords :: "string list" where
  "commitment_keywords =
     [''long-term contract'', ''multi-year'', ''switching cost'', ''switching costs'',
      ''integrations'', ''installed base'', ''locked in'', ''legacy system'',
      ''prior investment'']"

definition authority_keywords :: "string list" where
  "authority_keywords =
     [''regulator'', ''regulators'', ''regulation'', ''mandate'', ''government'',
      ''board approval'', ''expert'', ''advisor'', ''consultant'']"

definition BIAS_KEYWORDS :: "(string \<times> (string \<times> string list)) list" where
  "BIAS_KEYWORDS =
     [(''Incentives'', (''Incentives'', incentives_keywords)),
      (''Social-Proof'', (''Social-Proof'', social_proof_keywords)),
      (''Commitment/Consistency'', (''Commitment/Consistency'', commitment_keywords)),
      (''Authority'', (''Authority'', authority_keywords))]"

definition INVERSION_RULES :: "(string list \<times> string) list" where
  "INVERSION_RULES =
     [([''network effect'', ''network effects''],
       ''What breaks network effects? (regulatory fee caps, platform API changes, competitor subsidies).''),
      ([''switching cost'', ''switching costs''],
       ''What erodes switching costs? (migration tooling, interoperability mandates, bundled pricing).''),
      ([''brand''],
       ''Where does the brand lose trust? (quality lapses, pricing power pushback, reputational hits).''),
      ([''cost advantage'', ''scale''],
       ''Who undercuts the cost advantage? (input inflation, vertical integration, price wars).''),
      ([''regulation'', ''license''],
       ''How could regulation flip? (license removal, new entrants approved, compliance burdens).'')]"

subsection \<open>The result types\<close>

record FilterResult =
  status :: string
  details :: string
  hits :: "string list option"

record Snapshot =
  filters :: "(string \<times> FilterResult) list"
  invert :: string
  biases :: "string list"
  posture :: string
  copy_text :: string

text \<open>
  The status and key strings of the source. The specification writes the status
  \<open>''Needs Data''\<close> as NeedsData and the key \<open>''Margin of Safety''\<close> as MarginOfSafety.
\<close>

definition Pass :: string where "Pass = ''Pass''"
definition Fail :: string where "Fail = ''Fail''"
definition NeedsData :: string where "NeedsData = ''Needs Data''"

definition Understandable :: string where "Understandable = ''Understandable''"
definition Moat :: string where "Moat = ''Moat''"
definition Management :: string where "Management = ''Management''"
definition MarginOfSafety :: string where "MarginOfSafety = ''Margin of Safety''"

definition Go :: string where "Go = ''Go''"
definition Wait :: string where "Wait = ''Wait''"
definition No :: string where "No = ''No''"

subsection \<open>Tokenizer and segmenter\<close>

definition tokenize_words :: "string \<Rightarrow> string list" where
  "tokenize_words text = findall_class is_word_char (py_lower text)"

definition count_sentences :: "string \<Rightarrow> string list" where
  "count_sentences text =
     (let parts = re_split_class is_sentence_end text
      in map strip (filter (\<lambda>p. strip p \<noteq> []) parts))"

definition count_paragraphs :: "string \<Rightarrow> nat" where
  "count_paragraphs text =
     (let paragraphs = filter (\<lambda>p. strip p \<noteq> []) (re_split_blank text)
      in if paragraphs \<noteq> [] then length paragraphs
         else (if strip text \<noteq> [] then 1 else 0))"

subsection \<open>Numbers\<close>

text \<open>
  The binary64 operations of the margin-of-safety filter: \<open>float(s)\<close>, with \<open>None\<close>
  for the \<open>ValueError\<close> the source catches; \<open>x <= n\<close> and \<open>x >= n\<close> against an integer
  literal; and the format \<open>{x:.1f}\<close>.
\<close>

record 'f float_ops =
  py_float :: "string \<Rightarrow> 'f option"
  float_le :: "'f \<Rightarrow> int \<Rightarrow> bool"
  float_ge :: "'f \<Rightarrow> int \<Rightarrow> bool"
  fmt_1f :: "'f \<Rightarrow> string"

definition parse_number :: "'f float_ops \<Rightarrow> string option \<Rightarrow> 'f option" where
  "parse_number fl raw =
     (case raw of
        None \<Rightarrow> None
      | Some r \<Rightarrow>
          (let text = py_lower (strip r)
           in if text = [] then None
              else (let text1 = filter (\<lambda>c. c \<noteq> CHR ''%'') text;
                        text2 = filter (\<lambda>c. c \<noteq> CHR ''~'') text1
                    in case re_search_number text2 of
                         None \<Rightarrow> None
                       | Some m \<Rightarrow> py_float fl m)))"

subsection \<open>The four filters\<close>

definition msg_summary :: string where
  "msg_summary = ''Add a <=30 word summary line up top.''"

definition msg_jargon :: string where
  "msg_jargon = ''High jargon density'' @ em_dash @ ''clarify plain language.''"

definition msg_segments :: string where
  "msg_segments = ''Too many disjoint segments'' @ em_dash @ ''tighten focus.''"

text \<open>
  \<open>understandable_verdict\<close> is the tail of \<open>_score_understandable\<close>, from the
  \<open>conditions\<close> dictionary on; the lookups \<open>conditions[...]\<close> can raise \<open>KeyError\<close>.
\<close>

definition understandable_verdict :: "(string \<times> bool) list \<Rightarrow> py_error + FilterResult" where
  "understandable_verdict conditions =
     (if list_all (\<lambda>v. v) (map snd conditions)
      then Inr \<lparr>status = Pass, details = ''Clear one-sentence hook; jargon in check.'', hits = None\<rparr>
      else
        (case getitem conditions ''summary'' of Inl e \<Rightarrow> Inl e | Inr c_summary \<Rightarrow>
         (case getitem conditions ''jargon'' of Inl e \<Rightarrow> Inl e | Inr c_jargon \<Rightarrow>
          (case getitem conditions ''segments'' of Inl e \<Rightarrow> Inl e | Inr c_segments \<Rightarrow>
             (let misses0 = [];
                  misses1 = (if \<not> c_summary then misses0 @ [msg_summary] else misses0);
                  misses2 = (if \<not> c_jargon then misses1 @ [msg_jargon] else misses1);
                  misses3 = (if \<not> c_segments then misses2 @ [msg_segments] else misses2)
              in Inr \<lparr>status = Fail, details = join '' '' misses3, hits = None\<rparr>)))))"

definition score_understandable :: "string \<Rightarrow> py_error + FilterResult" where
  "score_understandable thesis =
     (let cleaned = strip thesis
      in if cleaned = []
         then Inr \<lparr>status = Fail, details = ''Add a concise thesis summary.'', hits = None\<rparr>
         else
           (let sentences = count_sentences cleaned;
                words = tokenize_words cleaned
            in case (if sentences \<noteq> []
                     then (case index0 sentences of Inl e \<Rightarrow> Inl e | Inr s0 \<Rightarrow> Inr (tokenize_words s0))
                     else Inr [])
               of Inl e \<Rightarrow> Inl e
                | Inr first_sentence_words \<Rightarrow>
                    (let long_words = filter (\<lambda>w. length w > 12) words
                     in case true_div (length long_words) (max (length words) 1)
                        of Inl e \<Rightarrow> Inl e
                         | Inr long_word_ratio \<Rightarrow>
                             (let paragraphs = count_paragraphs cleaned;
                                  conditions =
                                    [(''summary'', length first_sentence_words \<le> 30),
                                     (''jargon'', long_word_ratio \<le> 2 / 10),
                                     (''segments'', paragraphs \<le> 2)]
                              in understandable_verdict conditions))))"

text \<open>
  The loop \<open>for keyword, label in TABLE.items(): if keyword in text and label not in
  hits: hits.append(label)\<close>, which the moat and management filters run over their
  tables; \<open>keyword in text\<close> is \<open>sublist keyword text\<close>.
\<close>

fun collect_labels :: "(string \<times> string) list \<Rightarrow> string \<Rightarrow> string list \<Rightarrow> string list" where
  "collect_labels [] text acc = acc"
| "collect_labels ((keyword, label) # rest) text acc =
     collect_labels rest text
       (if sublist keyword text \<and> label \<notin> set acc then acc @ [label] else acc)"

definition score_moat :: "string \<Rightarrow> FilterResult" where
  "score_moat thesis =
     (let text = py_lower thesis;
          hs = collect_labels MOAT_KEYWORDS text []
      in if hs \<noteq> [] then \<lparr>status = Pass, details = join '', '' hs, hits = Some hs\<rparr>
         else \<lparr>status = Fail,
               details = ''Spell out the moat (network effects, switching costs, brand, cost advantage).'',
               hits = None\<rparr>)"

definition score_management :: "string \<Rightarrow> FilterResult" where
  "score_management thesis =
     (let text = py_lower thesis;
          positives = collect_labels MANAGEMENT_POSITIVE text [];
          negatives = collect_labels MANAGEMENT_RED_FLAGS text []
      in if negatives \<noteq> []
         then \<lparr>status = Fail, details = ''Red flags: '' @ join '', '' negatives, hits = None\<rparr>
         else if positives \<noteq> []
         then \<lparr>status = Pass, details = join '', '' positives, hits = None\<rparr>
         else \<lparr>status = Fail,
               details = ''Note owner-operator traits, insider ownership, or capital allocation history.'',
               hits = None\<rparr>)"

definition msg_needs_data :: string where
  "msg_needs_data = em_dash @ '' add P/E or FCF-yield to judge MOS.''"

definition score_margin_of_safety ::
    "'f float_ops \<Rightarrow> string option \<Rightarrow> string option \<Rightarrow> FilterResult" where
  "score_margin_of_safety fl pe_text fcf_yield_text =
     (let pe = parse_number fl pe_text;
          fcf_yield = parse_number fl fcf_yield_text
      in if (case pe of None \<Rightarrow> False | Some p \<Rightarrow> float_le fl p 15)
         then \<lparr>status = Pass,
               details = ''P/E '' @ fmt_1f fl (the pe) @ '' within <=15 guardrail.'',
               hits = None\<rparr>
         else if (case fcf_yield of None \<Rightarrow> False | Some y \<Rightarrow> float_ge fl y 6)
         then \<lparr>status = Pass,
               details = ''FCF yield '' @ fmt_1f fl (the fcf_yield) @ ''% clears >=6% bar.'',
               hits = None\<rparr>
         else if pe \<noteq> None \<or> fcf_yield \<noteq> None
         then (let d0 = [];
                   d1 = (case pe of None \<Rightarrow> d0
                         | Some p \<Rightarrow> d0 @ [''P/E '' @ fmt_1f fl p @ '' > 15'']);
                   d2 = (case fcf_yield of None \<Rightarrow> d1
                         | Some y \<Rightarrow> d1 @ [''FCF yield '' @ fmt_1f fl y @ ''% < 6%''])
               in \<lparr>status = Fail, details = join ''; '' d2, hits = None\<rparr>)
         else \<lparr>status = NeedsData, details = msg_needs_data, hits = None\<rparr>)"

subsection \<open>Bias ranker, inversion advisor, posture, report\<close>

text \<open>
  The first loop of \<open>_rank_biases\<close> as a recursion on the table's items, with the two
  lists it appends to; the two later loops as recursions on \<open>ordered_biases\<close>.
\<close>

fun scan_biases ::
    "(string \<times> (string \<times> string list)) list \<Rightarrow> string \<Rightarrow> string list \<times> string list
       \<Rightarrow> string list \<times> string list" where
  "scan_biases [] text (ordered_biases, triggered) = (ordered_biases, triggered)"
| "scan_biases ((key, (display, keywords)) # rest) text (ordered_biases, triggered) =
     scan_biases rest text
       (ordered_biases @ [display],
        if list_ex (\<lambda>keyword. sublist keyword text) keywords
        then triggered @ [display] else triggered)"

fun add_triggered :: "string list \<Rightarrow> string list \<Rightarrow> string list \<Rightarrow> string list" where
  "add_triggered [] triggered final = final"
| "add_triggered (bias # rest) triggered final =
     add_triggered rest triggered
       (if bias \<in> set triggered \<and> bias \<notin> set final then final @ [bias] else final)"

fun add_remaining :: "string list \<Rightarrow> string list \<Rightarrow> string list" where
  "add_remaining [] final = final"
| "add_remaining (bias # rest) final =
     add_remaining rest (if bias \<notin> set final then final @ [bias] else final)"

definition rank_biases :: "string \<Rightarrow> string list" where
  "rank_biases thesis =
     (let text = py_lower thesis;
          (ordered_biases, triggered) = scan_biases BIAS_KEYWORDS text ([], []);
          final1 = add_triggered ordered_biases triggered [];
          final2 = add_remaining ordered_biases final1
      in take 3 final2)"

definition generic_inversion :: string where
  "generic_inversion =
     ''What would have to be true for this to fail? Pressure-test customer churn, pricing power, and management behavior.''"

fun invert_rules :: "(string list \<times> string) list \<Rightarrow> string \<Rightarrow> string list \<Rightarrow> string" where
  "invert_rules [] text moat_hits = generic_inversion"
| "invert_rules ((keywords, prompt) # rest) text moat_hits =
     (if list_ex (\<lambda>k. sublist k text) keywords then prompt
      else if moat_hits \<noteq> [] \<and> list_ex (\<lambda>hit. list_ex (\<lambda>k. sublist k hit) keywords) moat_hits
      then prompt
      else invert_rules rest text moat_hits)"

definition invert_question :: "string \<Rightarrow> FilterResult \<Rightarrow> string" where
  "invert_question thesis moat_result =
     (let text = py_lower thesis;
          moat_hits = (case hits moat_result of
                         None \<Rightarrow> []
                       | Some hs \<Rightarrow> (if hs \<noteq> [] then map py_lower hs else []))
      in invert_rules INVERSION_RULES text moat_hits)"

definition posture_fn :: "(string \<times> FilterResult) list \<Rightarrow> string" where
  "posture_fn fs =
     (let passes = length (filter (\<lambda>f. status f = Pass) (map snd fs));
          fails = length (filter (\<lambda>f. status f = Fail) (map snd fs));
          needs = length (filter (\<lambda>f. status f = NeedsData) (map snd fs))
      in if fails \<ge> 2 then No
         else if fails = 0 \<and> needs = 0 \<and> passes \<ge> 3 then Go
         else Wait)"

definition build_copy ::
    "(string \<times> FilterResult) list \<Rightarrow> string \<Rightarrow> string list \<Rightarrow> string \<Rightarrow> string" where
  "build_copy fs inv_prompt bs post =
     (let lines0 = [''Four-Filters Snapshot''];
          lines1 = lines0 @
            map (\<lambda>(name, result).
                   (let detail = (if details result \<noteq> []
                                  then '' '' @ em_dash @ '' '' @ details result else [])
                    in name @ '': '' @ status result @ detail)) fs;
          lines2 = lines1 @ [''Invert: '' @ inv_prompt];
          lines3 = lines2 @ [''Bias Risks: '' @ join '', '' bs];
          lines4 = lines3 @ [''Posture: '' @ post]
      in join [newline] lines4)"

definition four_filters ::
    "'f float_ops \<Rightarrow> string \<Rightarrow> string option \<Rightarrow> string option \<Rightarrow> py_error + Snapshot" where
  "four_filters fl thesis pe_text fcf_yield_text =
     (case score_understandable thesis of Inl e \<Rightarrow> Inl e | Inr u \<Rightarrow>
        (let fs = [(Understandable, u),
                   (Moat, score_moat thesis),
                   (Management, score_management thesis),
                   (MarginOfSafety, score_margin_of_safety fl pe_text fcf_yield_text)]
         in case getitem fs Moat of Inl e \<Rightarrow> Inl e | Inr moat_result \<Rightarrow>
              (let inv_prompt = invert_question thesis moat_result;
                   bs = rank_biases thesis;
                   post = posture_fn fs;
                   ct = build_copy fs inv_prompt bs post
               in Inr \<lparr>filters = fs, invert = inv_prompt, biases = bs, posture = post, copy_text = ct\<rparr>)))"

subsection \<open>A decimal instance of the float operations\<close>

text \<open>
  \<open>dec_ops\<close> reads a numeral as the rational it denotes, compares exactly, and prints
  one decimal rounded half to even. It agrees with binary64 on the numerals of the
  examples below, which are integers or have one fractional digit.
\<close>

definition digits_value :: "string \<Rightarrow> nat" where
  "digits_value ds = foldl (\<lambda>a c. 10 * a + (of_char c - 48)) 0 ds"

definition dec_float :: "string \<Rightarrow> rat option" where
  "dec_float s =
     (let neg = (s \<noteq> [] \<and> hd s = CHR ''-'');
          body = (if neg then tl s else s);
          ip = takeWhile is_digit body;
          rest = dropWhile is_digit body;
          sg = (if neg then - 1 else 1 :: rat)
      in if ip = [] then None
         else (case rest of
                 [] \<Rightarrow> Some (sg * of_nat (digits_value ip))
               | c # fp \<Rightarrow>
                   (if c = CHR ''.'' \<and> fp \<noteq> [] \<and> list_all is_digit fp
                    then Some (sg * (of_nat (digits_value ip)
                                      + of_nat (digits_value fp) / 10 ^ length fp))
                    else None)))"

fun show_nat :: "nat \<Rightarrow> string" where
  "show_nat n =
     (if n < 10 then [char_of (48 + n)]
      else show_nat (n div 10) @ [char_of (48 + n mod 10)])"

definition round_half_even :: "rat \<Rightarrow> int" where
  "round_half_even r =
     (let f = \<lfloor>r\<rfloor>; d = r - of_int f
      in if d < 1 / 2 then f else if 1 / 2 < d then f + 1
         else if even f then f else f + 1)"

definition dec_fmt_1f :: "rat \<Rightarrow> string" where
  "dec_fmt_1f r =
     (let t = round_half_even (r * 10); m = nat \<bar>t\<bar>
      in (if r < 0 then ''-'' else []) @ show_nat (m div 10) @ ''.'' @ show_nat (m mod 10))"

definition dec_ops :: "rat float_ops" where
  "dec_ops = \<lparr>py_float = dec_float,
              float_le = (\<lambda>x n. x \<le> of_int n),
              float_ge = (\<lambda>x n. x \<ge> of_int n),
              fmt_1f = dec_fmt_1f\<rparr>"

subsection \<open>The specification's notions\<close>

text \<open>
  The labels of the keywords of a table that occur in a text, in the table's order, and
  a list cut down to the first occurrence of each of its elements.
\<close>

definition matching_labels :: "(string \<times> string) list \<Rightarrow> string \<Rightarrow> string list" where
  "matching_labels tbl text = map snd (filter (\<lambda>(keyword, label). sublist keyword text) tbl)"

definition first_occurrences :: "'a list \<Rightarrow> 'a list" where
  "first_occurrences xs = rev (remdups (rev xs))"

text \<open>
  A bias category is triggered when one of its keywords occurs in the text; the
  ranking lists the triggered categories first, then the others, each group in the
  order of the table.
\<close>

definition bias_triggered :: "string \<Rightarrow> string \<times> string list \<Rightarrow> bool" where
  "bias_triggered text category = list_ex (\<lambda>keyword. sublist keyword text) (snd category)"

definition triggered_first :: "(string \<times> string list) list \<Rightarrow> string \<Rightarrow> string list" where
  "triggered_first categories text =
     map fst (filter (bias_triggered text) categories) @
     map fst (filter (\<lambda>category. \<not> bias_triggered text category) categories)"

text \<open>
  The labels a moat verdict matched, and when an inversion rule matches: one of its
  trigger keywords occurs in the text or in some matched label, lowercased.
\<close>

definition matched_labels :: "FilterResult \<Rightarrow> string list" where
  "matched_labels r = (case hits r of None \<Rightarrow> [] | Some hs \<Rightarrow> hs)"

definition rule_matches :: "string \<Rightarrow> string list \<Rightarrow> string list \<times> string \<Rightarrow> bool" where
  "rule_matches text labels rule =
     (list_ex (\<lambda>k. sublist k text) (fst rule)
      \<or> list_ex (\<lambda>label. list_ex (\<lambda>k. sublist k (py_lower label)) (fst rule)) labels)"

text \<open>
  The three quantities the Understandable filter computes on the trimmed thesis, read
  off the tokenizer and the segmenter: the number of words of its first sentence (0 when
  it has no sentence), the share of its words that are longer than 12 characters (0 over
  0 words), and the remediation messages of the conditions that fail, in the order
  summary, jargon, segments.
\<close>

definition first_sentence_word_count :: "string \<Rightarrow> nat" where
  "first_sentence_word_count cleaned =
     (case count_sentences cleaned of [] \<Rightarrow> 0 | s0 # _ \<Rightarrow> length (tokenize_words s0))"

definition long_word_ratio :: "string \<Rightarrow> rat" where
  "long_word_ratio cleaned =
     (let words = tokenize_words cleaned
      in of_nat (length (filter (\<lambda>w. 12 < length w) words)) / of_nat (max (length words) 1))"

definition misses_of :: "bool \<Rightarrow> bool \<Rightarrow> bool \<Rightarrow> string list" where
  "misses_of summary jargon segments =
     (if summary then [] else [msg_summary]) @
     (if jargon then [] else [msg_jargon]) @
     (if segments then [] else [msg_segments])"

text \<open>
  The same measures stated on the characters of the thesis alone, without the
  tokenizer and the segmenter. White space, word characters and sentence enders are
  enumerated.
\<close>

definition white_space :: string where
  "white_space = [CHR 0x09, CHR 0x0A, CHR 0x0B, CHR 0x0C, CHR 0x0D, CHR 0x1C, CHR 0x1D, CHR 0x1E,
                  CHR 0x1F, CHR 0x20, CHR 0x85, CHR 0xA0]"

definition word_chars :: string where
  "word_chars = ''abcdefghijklmnopqrstuvwxyzABCDEFGHIJKLMNOPQRSTUVWXYZ0123456789'' @ [CHR 0x27]"

definition sentence_enders :: string where
  "sentence_enders = ''.!?''"

text \<open>
  A word is a maximal run of word characters, in any letter case. The first sentence
  is what lies between the leading sentence enders and white space and the next
  sentence ender; it is empty when the text has nothing else.
\<close>

fun word_runs :: "(char \<Rightarrow> bool) \<Rightarrow> string \<Rightarrow> string \<Rightarrow> string list" where
  "word_runs P cur [] = (if cur = [] then [] else [cur])"
| "word_runs P cur (c # cs) =
     (if P c then word_runs P (cur @ [c]) cs
      else (if cur = [] then [] else [cur]) @ word_runs P [] cs)"

definition words_of :: "string \<Rightarrow> string list" where
  "words_of s = word_runs (\<lambda>c. c \<in> set word_chars) [] s"

definition first_sentence_of :: "string \<Rightarrow> string" where
  "first_sentence_of s =
     takeWhile (\<lambda>c. c \<notin> set sentence_enders)
       (dropWhile (\<lambda>c. c \<in> set sentence_enders \<or> c \<in> set white_space) s)"

text \<open>
  A paragraph break is a run of white space with at least two line feeds between two
  other characters. A text that is not all white space has one paragraph more than it
  has breaks; \<open>paragraph_scan\<close> reads the text once, with a flag for a character seen
  and the line feeds of the current run. \<open>nonblank_count\<close> counts the pieces of a
  split that are not all white space.
\<close>

fun paragraph_scan :: "bool \<Rightarrow> nat \<Rightarrow> string \<Rightarrow> nat" where
  "paragraph_scan inp k [] = (if inp then 1 else 0)"
| "paragraph_scan inp k (c # cs) =
     (if c \<in> set white_space
      then paragraph_scan inp (if c = CHR 0x0A then k + 1 else k) cs
      else (if inp \<and> 2 \<le> k then 1 else 0) + paragraph_scan True 0 cs)"

definition paragraphs_of :: "string \<Rightarrow> nat" where
  "paragraphs_of s = paragraph_scan False 0 s"

definition nonblank_count :: "string list \<Rightarrow> nat" where
  "nonblank_count ps = length (filter (\<lambda>p. strip p \<noteq> []) ps)"

text \<open>
  The share of the words that are longer than 12 characters, 0 when there is no word,
  and the text of the remediation for each combination of failing conditions, written
  out.
\<close>

definition long_word_share :: "string \<Rightarrow> rat" where
  "long_word_share s =
     (let ws = words_of s
      in if ws = [] then 0
         else of_nat (length (filter (\<lambda>w. 12 < length w) ws)) / of_nat (length ws))"

definition remediation :: "bool \<Rightarrow> bool \<Rightarrow> bool \<Rightarrow> string" where
  "remediation summary jargon segments =
     (let m1 = ''Add a <=30 word summary line up top.'';
          m2 = ''High jargon density'' @ em_dash @ ''clarify plain language.'';
          m3 = ''Too many disjoint segments'' @ em_dash @ ''tighten focus.''
      in if summary
         then (if jargon then (if segments then [] else m3)
               else (if segments then m2 else m2 @ '' '' @ m3))
         else (if jargon then (if segments then m1 else m1 @ '' '' @ m3)
               else (if segments then m1 @ '' '' @ m2 else m1 @ '' '' @ m2 @ '' '' @ m3)))"

section \<open>Properties\<close>

subsection \<open>Label collection\<close>

lemma remdups_snoc: "remdups (ys @ [l]) = remdups (filter (\<lambda>x. x \<noteq> l) ys) @ [l]"
  by (induction ys) auto

lemma first_occurrences_Cons:
  "first_occurrences (l # xs) = l # first_occurrences (filter (\<lambda>x. x \<noteq> l) xs)"
  by (simp add: first_occurrences_def remdups_snoc rev_filter)

lemma matching_labels_Cons:
  "matching_labels ((k, l) # rest) text =
     (if sublist k text then l # matching_labels rest text else matching_labels rest text)"
  by (simp add: matching_labels_def)

lemma collect_labels_acc:
  "collect_labels tbl text acc =
     acc @ first_occurrences (filter (\<lambda>l. l \<notin> set acc) (matching_labels tbl text))"
proof (induction tbl arbitrary: acc)
  case Nil
  then show ?case by (simp add: matching_labels_def first_occurrences_def)
next
  case (Cons kl rest)
  obtain k l where kl: "kl = (k, l)" by (cases kl)
  let ?ms = "matching_labels rest text"
  show ?case
  proof (cases "sublist k text \<and> l \<notin> set acc")
    case True
    have "collect_labels (kl # rest) text acc = collect_labels rest text (acc @ [l])"
      using True by (simp add: kl)
    also have "\<dots> = (acc @ [l]) @ first_occurrences (filter (\<lambda>x. x \<notin> set (acc @ [l])) ?ms)"
      by (rule Cons.IH)
    also have "filter (\<lambda>x. x \<notin> set (acc @ [l])) ?ms =
        filter (\<lambda>x. x \<noteq> l) (filter (\<lambda>x. x \<notin> set acc) ?ms)"
      by (auto intro: filter_cong)
    also have "(acc @ [l]) @ first_occurrences (filter (\<lambda>x. x \<noteq> l) (filter (\<lambda>x. x \<notin> set acc) ?ms))
        = acc @ first_occurrences (l # filter (\<lambda>x. x \<notin> set acc) ?ms)"
      by (simp add: first_occurrences_Cons)
    also have "l # filter (\<lambda>x. x \<notin> set acc) ?ms =
        filter (\<lambda>x. x \<notin> set acc) (matching_labels (kl # rest) text)"
      using True by (simp add: kl matching_labels_Cons)
    finally show ?thesis .
  next
    case False
    have "collect_labels (kl # rest) text acc = collect_labels rest text acc"
      using False by (auto simp: kl)
    also have "\<dots> = acc @ first_occurrences (filter (\<lambda>x. x \<notin> set acc) ?ms)"
      by (rule Cons.IH)
    also have "filter (\<lambda>x. x \<notin> set acc) ?ms =
        filter (\<lambda>x. x \<notin> set acc) (matching_labels (kl # rest) text)"
      using False by (auto simp: kl matching_labels_Cons)
    finally show ?thesis .
  qed
qed

lemma collect_labels_eq:
  "collect_labels tbl text [] = first_occurrences (matching_labels tbl text)"
  by (simp add: collect_labels_acc)

lemma set_first_occurrences: "set (first_occurrences xs) = set xs"
  by (simp add: first_occurrences_def)

lemma distinct_first_occurrences: "distinct (first_occurrences xs)"
  by (simp add: first_occurrences_def)

lemma first_occurrences_Nil_iff: "first_occurrences xs = [] \<longleftrightarrow> xs = []"
  by (simp add: first_occurrences_def)

lemma matching_labels_Nil_iff:
  "matching_labels tbl text = [] \<longleftrightarrow> \<not> list_ex (\<lambda>(keyword, label). sublist keyword text) tbl"
  by (auto simp: matching_labels_def filter_empty_conv list_ex_iff)

lemma count_list_distinct: "distinct xs \<Longrightarrow> x \<in> set xs \<Longrightarrow> count_list xs x = 1"
  by (induction xs) auto

lemma collected_Nil_iff:
  "first_occurrences (matching_labels tbl text) = [] \<longleftrightarrow>
     \<not> list_ex (\<lambda>(keyword, label). sublist keyword text) tbl"
  by (simp add: first_occurrences_Nil_iff matching_labels_Nil_iff)

lemma matching_labels_member:
  "(k, l) \<in> set tbl \<Longrightarrow> sublist k text \<Longrightarrow> l \<in> set (first_occurrences (matching_labels tbl text))"
  by (force simp: set_first_occurrences matching_labels_def)

subsection \<open>Moat filter\<close>

text \<open>
  Claim C5. For every thesis the moat filter's hit list is the list of the labels of
  the moat keywords that are substrings of the lowercased thesis, in the table's
  declaration order, each label kept at its first occurrence only. When the list is
  non-empty the verdict is Pass, its details the hits joined by a comma and a space,
  its matched keywords the hit list; otherwise the verdict is Fail with the fixed
  prompt and no matched keywords. A thesis that contains (in any letter case) both
  \<open>network effect\<close> and \<open>network effects\<close> has the label \<open>Network effects\<close> exactly once
  among its hits.
\<close>

theorem moat_filter_collects_labels:
  "score_moat thesis =
     (let hs = first_occurrences (matching_labels MOAT_KEYWORDS (py_lower thesis))
      in if hs \<noteq> [] then \<lparr>status = Pass, details = join '', '' hs, hits = Some hs\<rparr>
         else \<lparr>status = Fail,
               details = ''Spell out the moat (network effects, switching costs, brand, cost advantage).'',
               hits = None\<rparr>)
   \<and> (sublist ''network effect'' (py_lower thesis) \<and> sublist ''network effects'' (py_lower thesis)
        \<longrightarrow> (\<exists>hs. hits (score_moat thesis) = Some hs \<and> count_list hs ''Network effects'' = 1))"
proof (intro conjI impI)
  show eq: "score_moat thesis =
     (let hs = first_occurrences (matching_labels MOAT_KEYWORDS (py_lower thesis))
      in if hs \<noteq> [] then \<lparr>status = Pass, details = join '', '' hs, hits = Some hs\<rparr>
         else \<lparr>status = Fail,
               details = ''Spell out the moat (network effects, switching costs, brand, cost advantage).'',
               hits = None\<rparr>)"
    by (simp add: score_moat_def collect_labels_eq Let_def)
  assume h: "sublist ''network effect'' (py_lower thesis) \<and> sublist ''network effects'' (py_lower thesis)"
  let ?hs = "first_occurrences (matching_labels MOAT_KEYWORDS (py_lower thesis))"
  have "(''network effect'', ''Network effects'') \<in> set MOAT_KEYWORDS"
    by (simp add: MOAT_KEYWORDS_def)
  with h have m: "''Network effects'' \<in> set ?hs"
    by (blast intro: matching_labels_member)
  then have ne: "?hs \<noteq> []" by auto
  have "count_list ?hs ''Network effects'' = 1"
    using m by (simp add: count_list_distinct distinct_first_occurrences)
  moreover have "hits (score_moat thesis) = Some ?hs"
    using ne by (simp add: eq Let_def)
  ultimately show "\<exists>hs. hits (score_moat thesis) = Some hs \<and> count_list hs ''Network effects'' = 1"
    by blast
qed

theorem moat_filter_collects_labels_witness:
  "sublist ''network effect'' (py_lower ''Network Effects beat one network effect'')
   \<and> sublist ''network effects'' (py_lower ''Network Effects beat one network effect'')
   \<and> score_moat ''Network Effects beat one network effect'' =
       \<lparr>status = Pass, details = ''Network effects'', hits = Some [''Network effects'']\<rparr>
   \<and> (\<exists>hs. hits (score_moat ''Network Effects beat one network effect'') = Some hs
          \<and> count_list hs ''Network effects'' = 1)"
proof -
  have h: "sublist ''network effect'' (py_lower ''Network Effects beat one network effect'')
      \<and> sublist ''network effects'' (py_lower ''Network Effects beat one network effect'')"
    by code_simp
  have v: "score_moat ''Network Effects beat one network effect'' =
       \<lparr>status = Pass, details = ''Network effects'', hits = Some [''Network effects'']\<rparr>"
    by code_simp
  from h v moat_filter_collects_labels [of "''Network Effects beat one network effect''"]
  show ?thesis by blast
qed

subsection \<open>Management filter\<close>

text \<open>
  Claim C4. For every thesis: if some red-flag keyword is a substring of the lowercased
  thesis, the management filter returns Fail with details \<open>Red flags: \<close> followed by
  the comma-joined red-flag labels, whatever positive keywords occur; else if some
  positive keyword occurs it returns Pass with the comma-joined positive labels; else
  Fail with the fixed prompt. A thesis with both \<open>founder-led\<close> and \<open>lawsuit\<close> gets Fail
  with red-flag details.
\<close>

theorem management_red_flags_first:
  "(let text = py_lower thesis;
        negatives = first_occurrences (matching_labels MANAGEMENT_RED_FLAGS text);
        positives = first_occurrences (matching_labels MANAGEMENT_POSITIVE text)
    in score_management thesis =
        (if list_ex (\<lambda>(keyword, label). sublist keyword text) MANAGEMENT_RED_FLAGS
         then \<lparr>status = Fail, details = ''Red flags: '' @ join '', '' negatives, hits = None\<rparr>
         else if list_ex (\<lambda>(keyword, label). sublist keyword text) MANAGEMENT_POSITIVE
         then \<lparr>status = Pass, details = join '', '' positives, hits = None\<rparr>
         else \<lparr>status = Fail,
               details = ''Note owner-operator traits, insider ownership, or capital allocation history.'',
               hits = None\<rparr>))
   \<and> (sublist ''founder-led'' (py_lower thesis) \<and> sublist ''lawsuit'' (py_lower thesis)
        \<longrightarrow> status (score_management thesis) = Fail
            \<and> prefix ''Red flags: '' (details (score_management thesis)))"
proof (intro conjI impI)
  show eq: "(let text = py_lower thesis;
        negatives = first_occurrences (matching_labels MANAGEMENT_RED_FLAGS text);
        positives = first_occurrences (matching_labels MANAGEMENT_POSITIVE text)
    in score_management thesis =
        (if list_ex (\<lambda>(keyword, label). sublist keyword text) MANAGEMENT_RED_FLAGS
         then \<lparr>status = Fail, details = ''Red flags: '' @ join '', '' negatives, hits = None\<rparr>
         else if list_ex (\<lambda>(keyword, label). sublist keyword text) MANAGEMENT_POSITIVE
         then \<lparr>status = Pass, details = join '', '' positives, hits = None\<rparr>
         else \<lparr>status = Fail,
               details = ''Note owner-operator traits, insider ownership, or capital allocation history.'',
               hits = None\<rparr>))"
    by (simp add: score_management_def collect_labels_eq Let_def collected_Nil_iff)
  assume h: "sublist ''founder-led'' (py_lower thesis) \<and> sublist ''lawsuit'' (py_lower thesis)"
  have "(''lawsuit'', ''Shareholder lawsuit'') \<in> set MANAGEMENT_RED_FLAGS"
    by (simp add: MANAGEMENT_RED_FLAGS_def)
  with h have "list_ex (\<lambda>(keyword, label). sublist keyword (py_lower thesis)) MANAGEMENT_RED_FLAGS"
    unfolding list_ex_iff by blast
  with eq show "status (score_management thesis) = Fail"
    by (simp add: Let_def)
  from eq \<open>list_ex _ MANAGEMENT_RED_FLAGS\<close>
  show "prefix ''Red flags: '' (details (score_management thesis))"
    by (simp add: Let_def)
qed

theorem management_red_flags_first_witness:
  "sublist ''founder-led'' (py_lower ''Founder-led, yet a lawsuit looms'')
   \<and> sublist ''lawsuit'' (py_lower ''Founder-led, yet a lawsuit looms'')
   \<and> status (score_management ''Founder-led, yet a lawsuit looms'') = Fail
   \<and> prefix ''Red flags: '' (details (score_management ''Founder-led, yet a lawsuit looms''))
   \<and> details (score_management ''Founder-led, yet a lawsuit looms'') = ''Red flags: Shareholder lawsuit''"
proof -
  have h: "sublist ''founder-led'' (py_lower ''Founder-led, yet a lawsuit looms'')
      \<and> sublist ''lawsuit'' (py_lower ''Founder-led, yet a lawsuit looms'')"
    by code_simp
  have v: "details (score_management ''Founder-led, yet a lawsuit looms'') = ''Red flags: Shareholder lawsuit''"
    by code_simp
  from h v management_red_flags_first [of "''Founder-led, yet a lawsuit looms''"]
  show ?thesis by blast
qed

subsection \<open>Bias ranker\<close>

lemma scan_biases_eq:
  "scan_biases tbl text (ordered, triggered) =
     (ordered @ map fst (map snd tbl),
      triggered @ map fst (filter (bias_triggered text) (map snd tbl)))"
  by (induction tbl arbitrary: ordered triggered) (auto simp: bias_triggered_def)

lemma add_triggered_eq:
  "distinct ord \<Longrightarrow> set final \<inter> set ord = {} \<Longrightarrow>
     add_triggered ord triggered final = final @ filter (\<lambda>b. b \<in> set triggered) ord"
  by (induction ord arbitrary: final) auto

lemma add_remaining_eq:
  "distinct ord \<Longrightarrow> add_remaining ord final = final @ filter (\<lambda>b. b \<notin> set final) ord"
proof (induction ord arbitrary: final)
  case Nil
  then show ?case by simp
next
  case (Cons b rest)
  have r: "filter (\<lambda>x. x \<notin> set (final @ [b])) rest = filter (\<lambda>x. x \<notin> set final) rest"
    using Cons.prems by (auto intro: filter_cong)
  show ?case using Cons.prems by (simp add: Cons.IH r del: set_append)
qed

lemma filter_names:
  assumes "distinct (map fst cats)"
  shows "filter (\<lambda>b. b \<in> fst ` {c \<in> set cats. T c}) (map fst cats) = map fst (filter T cats)"
proof -
  have inj: "inj_on fst (set cats)" using assms by (simp add: distinct_map)
  have "\<And>c. c \<in> set cats \<Longrightarrow> (fst c \<in> fst ` {c \<in> set cats. T c}) = T c"
    using inj by (auto dest: inj_onD)
  then show ?thesis by (simp add: filter_map o_def cong: filter_cong)
qed

lemma filter_not_names:
  assumes "distinct (map fst cats)"
  shows "filter (\<lambda>b. b \<notin> set (map fst (filter T cats))) (map fst cats)
           = map fst (filter (\<lambda>c. \<not> T c) cats)"
proof -
  have inj: "inj_on fst (set cats)" using assms by (simp add: distinct_map)
  have "\<And>c. c \<in> set cats \<Longrightarrow> (fst c \<notin> set (map fst (filter T cats))) = (\<not> T c)"
    using inj by (auto dest: inj_onD)
  then show ?thesis by (simp add: filter_map o_def cong: filter_cong)
qed

lemma rank_general:
  assumes d: "distinct (map fst (map snd tbl))"
  shows "(case scan_biases tbl text ([], []) of
            (ordered_biases, triggered) \<Rightarrow>
              add_remaining ordered_biases (add_triggered ordered_biases triggered []))
         = triggered_first (map snd tbl) text"
proof -
  let ?cats = "map snd tbl"
  let ?T = "bias_triggered text"
  let ?ord = "map fst ?cats"
  let ?trig = "map fst (filter ?T ?cats)"
  have s: "set ?trig = fst ` {c \<in> set ?cats. ?T c}" by auto
  have f1: "add_triggered ?ord ?trig [] = ?trig"
    using d by (simp only: add_triggered_eq [OF d] s filter_names [OF d] append_Nil set_simps Int_empty_left simp_thms)
  have f2: "add_remaining ?ord ?trig = ?trig @ map fst (filter (\<lambda>c. \<not> ?T c) ?cats)"
    by (simp only: add_remaining_eq [OF d] filter_not_names [OF d])
  show ?thesis
    by (simp only: scan_biases_eq append_Nil prod.case f1 f2 triggered_first_def)
qed

lemma bias_names_distinct: "distinct (map fst (map snd BIAS_KEYWORDS))"
  by (simp add: BIAS_KEYWORDS_def)

lemma rank_biases_eq:
  "rank_biases thesis = take 3 (triggered_first (map snd BIAS_KEYWORDS) (py_lower thesis))"
proof -
  have "rank_biases thesis =
      take 3 (case scan_biases BIAS_KEYWORDS (py_lower thesis) ([], []) of
            (ordered_biases, triggered) \<Rightarrow>
              add_remaining ordered_biases (add_triggered ordered_biases triggered []))"
    by (simp add: rank_biases_def Let_def split: prod.splits)
  then show ?thesis by (simp only: rank_general [OF bias_names_distinct])
qed

lemma triggered_first_props:
  assumes d: "distinct (map fst cats)"
  shows "length (triggered_first cats text) = length cats"
    and "distinct (triggered_first cats text)"
    and "set (triggered_first cats text) = set (map fst cats)"
proof -
  have inj: "inj_on fst (set cats)" using d by (simp add: distinct_map)
  show "length (triggered_first cats text) = length cats"
    by (simp add: triggered_first_def sum_length_filter_compl)
  have d1: "distinct (map fst (filter (bias_triggered text) cats))"
    using d by (rule distinct_map_filter)
  have d2: "distinct (map fst (filter (\<lambda>c. \<not> bias_triggered text c) cats))"
    using d by (rule distinct_map_filter)
  have dis: "set (map fst (filter (bias_triggered text) cats))
      \<inter> set (map fst (filter (\<lambda>c. \<not> bias_triggered text c) cats)) = {}"
    using inj by (auto dest: inj_onD)
  show "distinct (triggered_first cats text)"
    unfolding triggered_first_def using d1 d2 dis by (simp only: distinct_append simp_thms)
  show "set (triggered_first cats text) = set (map fst cats)"
    by (auto simp: triggered_first_def)
qed

text \<open>
  Claim C6. The bias categories stand in the table in the order Incentives,
  Social-Proof, Commitment/Consistency, Authority. For every thesis the ranker returns
  the first three entries of the list made of the categories with a keyword occurring
  in the lowercased thesis, in declaration order, followed by the categories without
  one, in declaration order; the result always has three entries.
\<close>

theorem bias_ranker_triggered_first:
  "map fst (map snd BIAS_KEYWORDS) =
     [''Incentives'', ''Social-Proof'', ''Commitment/Consistency'', ''Authority'']
   \<and> rank_biases thesis = take 3 (triggered_first (map snd BIAS_KEYWORDS) (py_lower thesis))
   \<and> length (rank_biases thesis) = 3"
proof (intro conjI)
  show "map fst (map snd BIAS_KEYWORDS) =
     [''Incentives'', ''Social-Proof'', ''Commitment/Consistency'', ''Authority'']"
    by (simp add: BIAS_KEYWORDS_def)
  show "rank_biases thesis = take 3 (triggered_first (map snd BIAS_KEYWORDS) (py_lower thesis))"
    by (rule rank_biases_eq)
  have "length (map snd BIAS_KEYWORDS) = 4" by (simp add: BIAS_KEYWORDS_def)
  then show "length (rank_biases thesis) = 3"
    by (simp add: rank_biases_eq triggered_first_props(1) [OF bias_names_distinct])
qed

theorem bias_ranker_triggered_first_witness:
  "rank_biases ''Government mandate wins customers'' = [''Social-Proof'', ''Authority'', ''Incentives'']
   \<and> take 3 (triggered_first (map snd BIAS_KEYWORDS) (py_lower ''Government mandate wins customers''))
       = [''Social-Proof'', ''Authority'', ''Incentives'']
   \<and> length (rank_biases ''Government mandate wins customers'') = 3"
proof -
  have v: "rank_biases ''Government mandate wins customers''
      = [''Social-Proof'', ''Authority'', ''Incentives'']"
    by code_simp
  from bias_ranker_triggered_first [of "''Government mandate wins customers''"]
  have e: "rank_biases ''Government mandate wins customers''
      = take 3 (triggered_first (map snd BIAS_KEYWORDS) (py_lower ''Government mandate wins customers''))"
    and l: "length (rank_biases ''Government mandate wins customers'') = 3"
    by blast+
  from v e l show ?thesis by metis
qed

subsection \<open>Posture\<close>

lemma count_status:
  "length (filter (\<lambda>f. status f = X) (map snd fs)) = count_list (map (\<lambda>(name, f). status f) fs) X"
  by (induction fs) auto

lemma posture_fn_eq:
  "posture_fn fs =
     (let sts = map (\<lambda>(name, f). status f) fs
      in if 2 \<le> count_list sts Fail then No
         else if count_list sts Fail = 0 \<and> count_list sts NeedsData = 0 \<and> 3 \<le> count_list sts Pass
         then Go else Wait)"
  by (simp only: posture_fn_def count_status Let_def)

lemma status_names_distinct: "Pass \<noteq> Fail" "Pass \<noteq> NeedsData" "Fail \<noteq> NeedsData"
  "Fail \<noteq> Pass" "NeedsData \<noteq> Pass" "NeedsData \<noteq> Fail"
  by (simp_all add: Pass_def Fail_def NeedsData_def)

lemma four_filters_posture:
  "four_filters fl thesis pe fcf = Inr snap \<Longrightarrow> posture snap = posture_fn (filters snap)"
  by (auto simp: four_filters_def Let_def split: sum.splits)

text \<open>
  Claim C3. The posture depends on the verdict statuses only: it is No when at least
  two statuses are Fail; otherwise Go when no status is Fail, none is NeedsData and at
  least three are Pass; otherwise Wait. Four filters that all pass give Go, exactly one
  Fail with three Pass gives Wait, and the posture of a snapshot is this function of
  its filters.
\<close>

theorem posture_from_statuses:
  "posture_fn fs =
     (let sts = map (\<lambda>(name, f). status f) fs
      in if 2 \<le> count_list sts Fail then No
         else if count_list sts Fail = 0 \<and> count_list sts NeedsData = 0 \<and> 3 \<le> count_list sts Pass
         then Go else Wait)
   \<and> (status u = Pass \<and> status m = Pass \<and> status g = Pass \<and> status s = Pass \<longrightarrow>
        posture_fn [(Understandable, u), (Moat, m), (Management, g), (MarginOfSafety, s)] = Go)
   \<and> (length fs = 4 \<and> count_list (map (\<lambda>(name, f). status f) fs) Fail = 1
        \<and> count_list (map (\<lambda>(name, f). status f) fs) Pass = 3 \<longrightarrow> posture_fn fs = Wait)
   \<and> (2 \<le> count_list (map (\<lambda>(name, f). status f) fs) Fail \<longrightarrow> posture_fn fs = No)
   \<and> (four_filters fl thesis pe fcf = Inr snap \<longrightarrow> posture snap = posture_fn (filters snap))"
proof (intro conjI impI)
  show "posture_fn fs =
     (let sts = map (\<lambda>(name, f). status f) fs
      in if 2 \<le> count_list sts Fail then No
         else if count_list sts Fail = 0 \<and> count_list sts NeedsData = 0 \<and> 3 \<le> count_list sts Pass
         then Go else Wait)"
    by (rule posture_fn_eq)
next
  assume "status u = Pass \<and> status m = Pass \<and> status g = Pass \<and> status s = Pass"
  then show "posture_fn [(Understandable, u), (Moat, m), (Management, g), (MarginOfSafety, s)] = Go"
    by (simp add: posture_fn_eq status_names_distinct)
next
  assume "length fs = 4 \<and> count_list (map (\<lambda>(name, f). status f) fs) Fail = 1
        \<and> count_list (map (\<lambda>(name, f). status f) fs) Pass = 3"
  then show "posture_fn fs = Wait"
    by (simp add: posture_fn_eq)
next
  assume "2 \<le> count_list (map (\<lambda>(name, f). status f) fs) Fail"
  then show "posture_fn fs = No"
    by (simp add: posture_fn_eq)
next
  assume "four_filters fl thesis pe fcf = Inr snap"
  then show "posture snap = posture_fn (filters snap)"
    by (rule four_filters_posture)
qed

theorem posture_from_statuses_witness:
  "posture_fn [(Understandable, \<lparr>status = Pass, details = [], hits = None\<rparr>),
               (Moat, \<lparr>status = Pass, details = [], hits = None\<rparr>),
               (Management, \<lparr>status = Pass, details = [], hits = None\<rparr>),
               (MarginOfSafety, \<lparr>status = Pass, details = [], hits = None\<rparr>)] = Go
   \<and> posture_fn [(Understandable, \<lparr>status = Pass, details = [], hits = None\<rparr>),
               (Moat, \<lparr>status = Fail, details = [], hits = None\<rparr>),
               (Management, \<lparr>status = Pass, details = [], hits = None\<rparr>),
               (MarginOfSafety, \<lparr>status = Pass, details = [], hits = None\<rparr>)] = Wait
   \<and> posture_fn [(Understandable, \<lparr>status = Pass, details = [], hits = None\<rparr>),
               (Moat, \<lparr>status = Fail, details = [], hits = None\<rparr>),
               (Management, \<lparr>status = Fail, details = [], hits = None\<rparr>),
               (MarginOfSafety, \<lparr>status = NeedsData, details = [], hits = None\<rparr>)] = No"
proof (intro conjI)
  let ?p = "\<lparr>status = Pass, details = [], hits = None\<rparr>"
  let ?f = "\<lparr>status = Fail, details = [], hits = None\<rparr>"
  let ?n = "\<lparr>status = NeedsData, details = [], hits = None\<rparr>"
  have "status ?p = Pass \<and> status ?p = Pass \<and> status ?p = Pass \<and> status ?p = Pass" by simp
  with posture_from_statuses [where u = ?p and m = ?p and g = ?p and s = ?p]
  show "posture_fn [(Understandable, ?p), (Moat, ?p), (Management, ?p), (MarginOfSafety, ?p)] = Go"
    by blast
  let ?fs1 = "[(Understandable, ?p), (Moat, ?f), (Management, ?p), (MarginOfSafety, ?p)]"
  have "length ?fs1 = 4 \<and> count_list (map (\<lambda>(name, f). status f) ?fs1) Fail = 1
        \<and> count_list (map (\<lambda>(name, f). status f) ?fs1) Pass = 3"
    by (simp add: status_names_distinct)
  with posture_from_statuses [where fs = ?fs1] show "posture_fn ?fs1 = Wait" by blast
  let ?fs2 = "[(Understandable, ?p), (Moat, ?f), (Management, ?f), (MarginOfSafety, ?n)]"
  have "2 \<le> count_list (map (\<lambda>(name, f). status f) ?fs2) Fail"
    by (simp add: status_names_distinct)
  with posture_from_statuses [where fs = ?fs2] show "posture_fn ?fs2 = No" by blast
qed

subsection \<open>Inversion advisor\<close>

lemma invert_rules_find:
  "invert_rules rules text moat_hits =
     (case find (\<lambda>rule. list_ex (\<lambda>k. sublist k text) (fst rule)
                    \<or> list_ex (\<lambda>hit. list_ex (\<lambda>k. sublist k hit) (fst rule)) moat_hits) rules of
        None \<Rightarrow> generic_inversion
      | Some (keywords, prompt) \<Rightarrow> prompt)"
proof (induction rules)
  case Nil
  then show ?case by simp
next
  case (Cons rule rest)
  obtain kws prompt where r: "rule = (kws, prompt)" by (cases rule)
  have e: "(moat_hits \<noteq> [] \<and> list_ex (\<lambda>hit. list_ex (\<lambda>k. sublist k hit) kws) moat_hits)
      = list_ex (\<lambda>hit. list_ex (\<lambda>k. sublist k hit) kws) moat_hits"
    by (cases moat_hits) auto
  show ?case by (simp add: r Cons.IH e)
qed

lemma moat_hits_eq:
  "(case hits r of None \<Rightarrow> [] | Some hs \<Rightarrow> (if hs \<noteq> [] then map py_lower hs else []))
     = map py_lower (matched_labels r)"
  by (auto simp: matched_labels_def split: option.splits)

lemma invert_question_eq:
  "invert_question thesis moat_result =
     (case find (rule_matches (py_lower thesis) (matched_labels moat_result)) INVERSION_RULES of
        None \<Rightarrow> generic_inversion
      | Some (keywords, prompt) \<Rightarrow> prompt)"
proof -
  have "(\<lambda>rule. list_ex (\<lambda>k. sublist k (py_lower thesis)) (fst rule)
           \<or> list_ex (\<lambda>hit. list_ex (\<lambda>k. sublist k hit) (fst rule))
                (map py_lower (matched_labels moat_result)))
        = rule_matches (py_lower thesis) (matched_labels moat_result)"
    by (auto simp: rule_matches_def fun_eq_iff list_ex_iff)
  then show ?thesis
    by (simp add: invert_question_def Let_def moat_hits_eq invert_rules_find)
qed


text \<open>
  Claim C7. For every thesis and moat verdict the inversion advisor returns the prompt
  of the first rule, in the order of the rule list, one of whose trigger keywords is a
  substring of the lowercased thesis or of some lowercased matched label of the moat
  verdict; when no rule matches it returns the generic prompt, in particular when no
  trigger keyword occurs in the thesis and the moat verdict is Fail without matched
  labels.
\<close>

theorem inversion_first_matching_rule:
  "invert_question thesis moat_result =
     (case find (rule_matches (py_lower thesis) (matched_labels moat_result)) INVERSION_RULES of
        None \<Rightarrow> generic_inversion
      | Some (keywords, prompt) \<Rightarrow> prompt)
   \<and> (\<not> list_ex (rule_matches (py_lower thesis) (matched_labels moat_result)) INVERSION_RULES
        \<longrightarrow> invert_question thesis moat_result = generic_inversion)
   \<and> (\<not> list_ex (\<lambda>rule. list_ex (\<lambda>k. sublist k (py_lower thesis)) (fst rule)) INVERSION_RULES
        \<and> status moat_result = Fail \<and> hits moat_result = None
        \<longrightarrow> invert_question thesis moat_result = generic_inversion)"
proof (intro conjI impI)
  show "invert_question thesis moat_result =
     (case find (rule_matches (py_lower thesis) (matched_labels moat_result)) INVERSION_RULES of
        None \<Rightarrow> generic_inversion
      | Some (keywords, prompt) \<Rightarrow> prompt)"
    by (rule invert_question_eq)
next
  assume "\<not> list_ex (rule_matches (py_lower thesis) (matched_labels moat_result)) INVERSION_RULES"
  then have "find (rule_matches (py_lower thesis) (matched_labels moat_result)) INVERSION_RULES = None"
    by (simp add: find_None_iff list_ex_iff)
  then show "invert_question thesis moat_result = generic_inversion"
    by (simp add: invert_question_eq)
next
  assume h: "\<not> list_ex (\<lambda>rule. list_ex (\<lambda>k. sublist k (py_lower thesis)) (fst rule)) INVERSION_RULES
        \<and> status moat_result = Fail \<and> hits moat_result = None"
  then have "matched_labels moat_result = []" by (simp add: matched_labels_def)
  with h have "find (rule_matches (py_lower thesis) (matched_labels moat_result)) INVERSION_RULES = None"
    by (fastforce simp add: find_None_iff list_ex_iff rule_matches_def)
  then show "invert_question thesis moat_result = generic_inversion"
    by (simp add: invert_question_eq)
qed

theorem inversion_first_matching_rule_witness:
  "\<not> list_ex (\<lambda>rule. list_ex (\<lambda>k. sublist k (py_lower ''Cheap and cheerful'')) (fst rule)) INVERSION_RULES
   \<and> status (score_moat ''Cheap and cheerful'') = Fail
   \<and> hits (score_moat ''Cheap and cheerful'') = None
   \<and> invert_question ''Cheap and cheerful'' (score_moat ''Cheap and cheerful'') = generic_inversion
   \<and> invert_question ''A Flywheel at scale'' (score_moat ''A Flywheel at scale'') =
       ''Who undercuts the cost advantage? (input inflation, vertical integration, price wars).''"
proof -
  have h: "\<not> list_ex (\<lambda>rule. list_ex (\<lambda>k. sublist k (py_lower ''Cheap and cheerful'')) (fst rule)) INVERSION_RULES
      \<and> status (score_moat ''Cheap and cheerful'') = Fail
      \<and> hits (score_moat ''Cheap and cheerful'') = None"
    by code_simp
  have v: "invert_question ''A Flywheel at scale'' (score_moat ''A Flywheel at scale'') =
       ''Who undercuts the cost advantage? (input inflation, vertical integration, price wars).''"
    by code_simp
  from h v inversion_first_matching_rule [of "''Cheap and cheerful''" "score_moat ''Cheap and cheerful''"]
  show ?thesis by blast
qed

subsection \<open>Understandable filter\<close>

lemma understandable_verdict_eq:
  "understandable_verdict [(''summary'', a), (''jargon'', b), (''segments'', c)] =
     Inr (if a \<and> b \<and> c
          then \<lparr>status = Pass, details = ''Clear one-sentence hook; jargon in check.'', hits = None\<rparr>
          else \<lparr>status = Fail, details = join '' '' (misses_of a b c), hits = None\<rparr>)"
  by (simp add: understandable_verdict_def getitem_def misses_of_def Let_def)

lemma score_understandable_eq:
  "score_understandable thesis =
     (let cleaned = strip thesis
      in if cleaned = []
         then Inr \<lparr>status = Fail, details = ''Add a concise thesis summary.'', hits = None\<rparr>
         else understandable_verdict
                [(''summary'', first_sentence_word_count cleaned \<le> 30),
                 (''jargon'', long_word_ratio cleaned \<le> 2 / 10),
                 (''segments'', count_paragraphs cleaned \<le> 2)])"
  by (simp add: score_understandable_def first_sentence_word_count_def long_word_ratio_def
      index0_def true_div_def Let_def split: list.splits)


lemma findall_class_Nil_iff: "findall_class P s = [] \<longleftrightarrow> (\<forall>c \<in> set s. \<not> P c)"
proof (cases "dropWhile (\<lambda>c. \<not> P c) s")
  case Nil
  have "findall_class P s = []" by (simp only: findall_class.simps [of P s] Nil list.case)
  moreover from Nil have "\<forall>c \<in> set s. \<not> P c" by (simp add: dropWhile_eq_Nil_conv)
  ultimately show ?thesis by simp
next
  case (Cons c cs)
  have "findall_class P s \<noteq> []"
    by (simp only: findall_class.simps [of P s] Cons list.case list.distinct not_False_eq_True)
  moreover from Cons have "\<not> (\<forall>c \<in> set s. \<not> P c)"
    using dropWhile_eq_Nil_conv [of "\<lambda>c. \<not> P c" s] by simp
  ultimately show ?thesis by simp
qed

lemma tokenize_words_Nil_iff:
  "tokenize_words s = [] \<longleftrightarrow> (\<forall>c \<in> set s. \<not> is_word_char (lower_char c))"
  by (simp add: tokenize_words_def findall_class_Nil_iff py_lower_def)

lemma set_strip_subset: "set (strip s) \<subseteq> set s"
proof -
  have "set (strip s) = set (dropWhile is_space (rev (dropWhile is_space s)))"
    by (simp add: strip_def)
  also have "\<dots> \<subseteq> set (rev (dropWhile is_space s))" by (auto dest: set_dropWhileD)
  also have "\<dots> \<subseteq> set s" by (auto dest: set_dropWhileD)
  finally show ?thesis .
qed

lemma set_re_split_class: "p \<in> set (re_split_class P s) \<Longrightarrow> set p \<subseteq> set s"
proof (induction P s arbitrary: p rule: re_split_class.induct)
  case (1 P s)
  show ?case
  proof (cases "dropWhile (\<lambda>c. \<not> P c) s")
    case Nil
    with "1.prems" show ?thesis by (subst (asm) re_split_class.simps) simp
  next
    case (Cons c cs)
    with "1.prems" have "p = takeWhile (\<lambda>c. \<not> P c) s \<or> p \<in> set (re_split_class P (dropWhile P cs))"
      by (subst (asm) re_split_class.simps) simp
    then show ?thesis
    proof
      assume "p = takeWhile (\<lambda>c. \<not> P c) s"
      then show ?thesis by (auto dest: set_takeWhileD)
    next
      assume "p \<in> set (re_split_class P (dropWhile P cs))"
      then have "set p \<subseteq> set (dropWhile P cs)" by (rule "1.IH" [OF Cons])
      also have "\<dots> \<subseteq> set cs" by (auto dest: set_dropWhileD)
      also have "\<dots> \<subseteq> set (dropWhile (\<lambda>c. \<not> P c) s)" by (auto simp: Cons)
      also have "\<dots> \<subseteq> set s" by (auto dest: set_dropWhileD)
      finally show ?thesis .
    qed
  qed
qed

lemma set_count_sentences: "s0 \<in> set (count_sentences text) \<Longrightarrow> set s0 \<subseteq> set text"
proof -
  assume "s0 \<in> set (count_sentences text)"
  then obtain p where p: "p \<in> set (re_split_class is_sentence_end text)" "s0 = strip p"
    by (auto simp: count_sentences_def Let_def)
  have "set s0 \<subseteq> set p" using p(2) set_strip_subset by simp
  also have "\<dots> \<subseteq> set text" using p(1) by (rule set_re_split_class)
  finally show ?thesis .
qed

lemma no_words_first_sentence:
  assumes "tokenize_words cleaned = []"
  shows "first_sentence_word_count cleaned = 0"
proof (cases "count_sentences cleaned")
  case Nil
  then show ?thesis by (simp add: first_sentence_word_count_def)
next
  case (Cons s0 rest)
  then have "set s0 \<subseteq> set cleaned" using set_count_sentences [of s0 cleaned] by simp
  with assms have "tokenize_words s0 = []" by (auto simp: tokenize_words_Nil_iff)
  with Cons show ?thesis by (simp add: first_sentence_word_count_def)
qed

lemma no_words_ratio: "tokenize_words cleaned = [] \<Longrightarrow> long_word_ratio cleaned = 0"
  by (simp add: long_word_ratio_def)

lemma strip_nonempty_has_char:
  assumes "strip s \<noteq> []"
  shows "\<exists>c \<in> set (strip s). \<not> is_space c"
proof -
  let ?d = "dropWhile is_space (rev (dropWhile is_space s))"
  from assms have ne: "?d \<noteq> []" by (simp add: strip_def)
  then have "\<not> is_space (hd ?d)" by (rule hd_dropWhile)
  moreover from ne have "hd ?d \<in> set ?d" by simp
  ultimately show ?thesis by (auto simp: strip_def)
qed

lemma strip_Nil_iff: "strip s = [] \<longleftrightarrow> (\<forall>c \<in> set s. is_space c)"
proof
  assume "strip s = []"
  then have a: "\<forall>c \<in> set (dropWhile is_space s). is_space c"
    by (simp add: strip_def dropWhile_eq_Nil_conv)
  have "dropWhile is_space s = []"
  proof (rule ccontr)
    assume n: "dropWhile is_space s \<noteq> []"
    then have "\<not> is_space (hd (dropWhile is_space s))" by (rule hd_dropWhile)
    moreover from n have "hd (dropWhile is_space s) \<in> set (dropWhile is_space s)" by simp
    ultimately show False using a by blast
  qed
  then show "\<forall>c \<in> set s. is_space c" by (simp add: dropWhile_eq_Nil_conv)
next
  assume "\<forall>c \<in> set s. is_space c"
  then show "strip s = []" by (auto simp: strip_def dropWhile_eq_Nil_conv dest: set_dropWhileD)
qed

lemma strip_strip_nonempty: "strip s \<noteq> [] \<Longrightarrow> strip (strip s) \<noteq> []"
  using strip_nonempty_has_char [of s] by (auto simp: strip_Nil_iff [of "strip s"])

lemma count_paragraphs_no_blank:
  assumes "find_blank s = None" and "strip s \<noteq> []"
  shows "count_paragraphs s = 1"
proof -
  have "re_split_blank s = [s]"
    by (simp only: re_split_blank.simps [of s] assms(1) option.case)
  with assms(2) show ?thesis by (simp add: count_paragraphs_def)
qed

text \<open>
  Claim C10, as amended. For every thesis whose trimmed text is non-empty and has no
  word, the first-sentence word count is 0 and the long-word ratio is 0, so the
  Understandable filter returns Pass with \<open>Clear one-sentence hook; jargon in check.\<close>
  when the paragraph count is at most 2, and Fail with the too-many-segments message
  alone otherwise. The paragraph count is 1 when the trimmed text has no blank-line
  separator, as for a thesis of three dots.
\<close>

theorem understandable_without_words:
  "strip thesis \<noteq> [] \<and> tokenize_words (strip thesis) = [] \<longrightarrow>
     first_sentence_word_count (strip thesis) = 0
     \<and> long_word_ratio (strip thesis) = 0
     \<and> score_understandable thesis =
         Inr (if count_paragraphs (strip thesis) \<le> 2
              then \<lparr>status = Pass, details = ''Clear one-sentence hook; jargon in check.'',
                    hits = None\<rparr>
              else \<lparr>status = Fail, details = msg_segments, hits = None\<rparr>)
     \<and> (find_blank (strip thesis) = None \<longrightarrow> count_paragraphs (strip thesis) = 1)"
proof (intro impI)
  assume h: "strip thesis \<noteq> [] \<and> tokenize_words (strip thesis) = []"
  then have a: "first_sentence_word_count (strip thesis) = 0"
    by (simp add: no_words_first_sentence)
  from h have b: "long_word_ratio (strip thesis) = 0" by (simp add: no_words_ratio)
  from h a b have c: "score_understandable thesis =
         Inr (if count_paragraphs (strip thesis) \<le> 2
              then \<lparr>status = Pass, details = ''Clear one-sentence hook; jargon in check.'',
                    hits = None\<rparr>
              else \<lparr>status = Fail, details = msg_segments, hits = None\<rparr>)"
    by (simp add: score_understandable_eq understandable_verdict_eq misses_of_def Let_def)
  from h have d: "find_blank (strip thesis) = None \<longrightarrow> count_paragraphs (strip thesis) = 1"
    by (simp add: count_paragraphs_no_blank strip_strip_nonempty)
  from a b c d show "first_sentence_word_count (strip thesis) = 0
     \<and> long_word_ratio (strip thesis) = 0
     \<and> score_understandable thesis =
         Inr (if count_paragraphs (strip thesis) \<le> 2
              then \<lparr>status = Pass, details = ''Clear one-sentence hook; jargon in check.'',
                    hits = None\<rparr>
              else \<lparr>status = Fail, details = msg_segments, hits = None\<rparr>)
     \<and> (find_blank (strip thesis) = None \<longrightarrow> count_paragraphs (strip thesis) = 1)"
    by blast
qed

theorem understandable_without_words_witness:
  "strip '' ... '' \<noteq> [] \<and> tokenize_words (strip '' ... '') = []
   \<and> find_blank (strip '' ... '') = None
   \<and> count_paragraphs (strip '' ... '') = 1
   \<and> score_understandable '' ... '' =
       Inr \<lparr>status = Pass, details = ''Clear one-sentence hook; jargon in check.'', hits = None\<rparr>"
proof -
  have h: "strip '' ... '' \<noteq> [] \<and> tokenize_words (strip '' ... '') = []" by code_simp
  have f: "find_blank (strip '' ... '') = None" by code_simp
  from h understandable_without_words [of "'' ... ''"]
  have r: "score_understandable '' ... '' =
         Inr (if count_paragraphs (strip '' ... '') \<le> 2
              then \<lparr>status = Pass, details = ''Clear one-sentence hook; jargon in check.'',
                    hits = None\<rparr>
              else \<lparr>status = Fail, details = msg_segments, hits = None\<rparr>)"
    and p: "find_blank (strip '' ... '') = None \<longrightarrow> count_paragraphs (strip '' ... '') = 1"
    by blast+
  from p f have p1: "count_paragraphs (strip '' ... '') = 1" by blast
  from r p1 have "score_understandable '' ... '' =
       Inr \<lparr>status = Pass, details = ''Clear one-sentence hook; jargon in check.'', hits = None\<rparr>"
    by simp
  with h f p1 show ?thesis by blast
qed

text \<open>
  Claim C10 as stated fails: three dots separated by blank lines have no word, yet
  they are three paragraphs, and the filter returns Fail.
\<close>

theorem understandable_without_words_counterexample:
  "strip [CHR ''.'', newline, newline, CHR ''.'', newline, newline, CHR ''.''] \<noteq> []
   \<and> tokenize_words (strip [CHR ''.'', newline, newline, CHR ''.'', newline, newline, CHR ''.'']) = []
   \<and> count_paragraphs (strip [CHR ''.'', newline, newline, CHR ''.'', newline, newline, CHR ''.'']) = 3
   \<and> score_understandable [CHR ''.'', newline, newline, CHR ''.'', newline, newline, CHR ''.''] =
       Inr \<lparr>status = Fail, details = msg_segments, hits = None\<rparr>
   \<and> score_understandable [CHR ''.'', newline, newline, CHR ''.'', newline, newline, CHR ''.''] \<noteq>
       Inr \<lparr>status = Pass, details = ''Clear one-sentence hook; jargon in check.'', hits = None\<rparr>"
  by code_simp

subsection \<open>Understandable filter: the measures on the text\<close>

text \<open>
  The character classes of the model are the enumerated ones, the tokenizer returns
  the words of the text in lower case, the first sentence of the segmenter has the
  words of \<open>first_sentence_of\<close>, the paragraph count is \<open>paragraphs_of\<close>, and the
  trimmed text is the thesis without its leading and trailing white space.
\<close>

lemma char_eq_code: "(c = d) = ((of_char c :: nat) = of_char d)"
  by simp

lemma is_space_iff: "is_space c \<longleftrightarrow> c \<in> set white_space"
proof -
  have "(of_char c :: nat) < 256" by simp
  then show ?thesis
    unfolding is_space_def white_space_def Let_def set_simps insert_iff empty_iff
    by (simp only: char_eq_code [of c] of_char_Char) (simp; arith)
qed

lemma is_word_char_iff: "is_word_char c \<longleftrightarrow> c \<in> set word_chars"
proof -
  have "(of_char c :: nat) < 256" by simp
  then show ?thesis
    unfolding is_word_char_def word_chars_def Let_def
    by (simp add: char_eq_code [of c] del: of_char_eq_iff; arith)
qed

lemma is_sentence_end_iff: "is_sentence_end c \<longleftrightarrow> c \<in> set sentence_enders"
  by (auto simp: is_sentence_end_def sentence_enders_def)

lemma findall_class_Nil: "findall_class P [] = []"
  by (simp only: findall_class.simps [of P "[]"] dropWhile.simps list.case)

lemma findall_class_Cons:
  "findall_class P (c # cs) =
     (if P c then (c # takeWhile P cs) # findall_class P (dropWhile P cs)
      else findall_class P cs)"
proof (cases "P c")
  case True
  then have "dropWhile (\<lambda>c. \<not> P c) (c # cs) = c # cs" by simp
  then show ?thesis
    using True by (simp only: findall_class.simps [of P "c # cs"] list.case if_True)
next
  case False
  then have d: "dropWhile (\<lambda>c. \<not> P c) (c # cs) = dropWhile (\<lambda>c. \<not> P c) cs" by simp
  have "findall_class P (c # cs) = findall_class P cs"
    by (simp only: findall_class.simps [of P "c # cs"] findall_class.simps [of P cs] d)
  with False show ?thesis by simp
qed

lemma word_runs_findall:
  "word_runs P cur s =
     (if cur = [] then findall_class P s
      else (cur @ takeWhile P s) # findall_class P (dropWhile P s))"
proof (induction s arbitrary: cur)
  case Nil
  then show ?case by (simp add: findall_class_Nil)
next
  case (Cons c cs)
  show ?case
  proof (cases "P c")
    case True
    then show ?thesis by (simp add: Cons.IH findall_class_Cons)
  next
    case False
    then show ?thesis by (simp add: Cons.IH findall_class_Cons)
  qed
qed

lemma is_word_char_lower: "is_word_char (lower_char c) = is_word_char c"
proof -
  have "(of_char c :: nat) < 256" by simp
  then show ?thesis
    by (auto simp: is_word_char_def lower_char_def Let_def)
qed

lemma word_runs_map:
  assumes "\<And>c. P (f c) = Q c"
  shows "word_runs P (map f cur) (map f s) = map (map f) (word_runs Q cur s)"
  using assms by (induction s arbitrary: cur) (simp_all, metis list.simps(9) map_append list.simps(8))

lemma tokenize_words_eq: "tokenize_words s = map py_lower (words_of s)"
proof -
  have "tokenize_words s = word_runs is_word_char [] (py_lower s)"
    by (simp add: tokenize_words_def word_runs_findall)
  also have "\<dots> = word_runs is_word_char (map lower_char []) (map lower_char s)"
    by (simp add: py_lower_def)
  also have "\<dots> = map (map lower_char) (word_runs is_word_char [] s)"
    by (rule word_runs_map) (rule is_word_char_lower)
  finally show ?thesis
    by (simp add: words_of_def py_lower_def [abs_def] is_word_char_iff [abs_def])
qed

lemma space_not_word: "is_space c \<Longrightarrow> c \<notin> set word_chars"
  by (auto simp: is_word_char_iff [symmetric] is_space_def is_word_char_def Let_def)

lemma space_not_end: "is_space c \<Longrightarrow> \<not> is_sentence_end c"
  by (auto simp: is_space_def is_sentence_end_def Let_def)

lemma word_runs_skip_left:
  "\<forall>c \<in> set w. \<not> P c \<Longrightarrow> word_runs P [] (w @ s) = word_runs P [] s"
  by (induction w) auto

lemma word_runs_skip_all: "\<forall>c \<in> set w. \<not> P c \<Longrightarrow> word_runs P cur w = word_runs P cur []"
  by (induction w arbitrary: cur) auto

lemma word_runs_skip_right:
  "\<forall>c \<in> set w. \<not> P c \<Longrightarrow> word_runs P cur (s @ w) = word_runs P cur s"
proof (induction s arbitrary: cur)
  case Nil
  then show ?case using word_runs_skip_all [of w P cur] by simp
next
  case (Cons c cs)
  then show ?case by simp
qed

lemma words_of_skip_left:
  assumes "\<forall>c \<in> set w. is_space c"
  shows "words_of (w @ s) = words_of s"
proof -
  have "\<forall>c \<in> set w. \<not> c \<in> set word_chars"
    using assms by (auto simp: space_not_word)
  then show ?thesis by (simp add: words_of_def word_runs_skip_left)
qed

lemma words_of_skip_right:
  assumes "\<forall>c \<in> set w. is_space c"
  shows "words_of (s @ w) = words_of s"
proof -
  have "\<forall>c \<in> set w. \<not> c \<in> set word_chars"
    using assms by (auto simp: space_not_word)
  then show ?thesis by (simp add: words_of_def word_runs_skip_right)
qed

lemma words_of_dropWhile: "words_of (dropWhile is_space s) = words_of s"
proof -
  have "words_of (takeWhile is_space s @ dropWhile is_space s) = words_of (dropWhile is_space s)"
    by (rule words_of_skip_left) (auto dest: set_takeWhileD)
  then show ?thesis by simp
qed

lemma words_of_strip: "words_of (strip s) = words_of s"
proof -
  let ?d = "dropWhile is_space s"
  have "rev ?d = takeWhile is_space (rev ?d) @ dropWhile is_space (rev ?d)" by simp
  then have "?d = rev (dropWhile is_space (rev ?d)) @ rev (takeWhile is_space (rev ?d))"
    by (metis rev_append rev_rev_ident)
  then have d: "?d = strip s @ rev (takeWhile is_space (rev ?d))" by (simp add: strip_def)
  have "words_of (strip s @ rev (takeWhile is_space (rev ?d))) = words_of (strip s)"
    by (rule words_of_skip_right) (auto dest: set_takeWhileD)
  with d have "words_of ?d = words_of (strip s)" by simp
  then show ?thesis by (simp add: words_of_dropWhile)
qed

lemma count_sentences_unfold:
  "count_sentences s =
     (if strip (takeWhile (\<lambda>c. \<not> is_sentence_end c) s) \<noteq> []
      then [strip (takeWhile (\<lambda>c. \<not> is_sentence_end c) s)] else []) @
     (case dropWhile (\<lambda>c. \<not> is_sentence_end c) s of
        [] \<Rightarrow> []
      | c # cs \<Rightarrow> count_sentences (dropWhile is_sentence_end cs))"
proof (cases "dropWhile (\<lambda>c. \<not> is_sentence_end c) s")
  case Nil
  then have t: "takeWhile (\<lambda>c. \<not> is_sentence_end c) s = s"
    by (metis append_Nil2 takeWhile_dropWhile_id)
  have "re_split_class is_sentence_end s = [s]"
    by (simp only: re_split_class.simps [of is_sentence_end s] Nil list.case)
  then show ?thesis by (simp add: count_sentences_def Nil t)
next
  case (Cons c cs)
  have "re_split_class is_sentence_end s =
      takeWhile (\<lambda>c. \<not> is_sentence_end c) s # re_split_class is_sentence_end (dropWhile is_sentence_end cs)"
    by (simp only: re_split_class.simps [of is_sentence_end s] Cons list.case)
  then show ?thesis by (simp add: count_sentences_def Cons)
qed

lemma first_sentence_of_alt:
  "first_sentence_of s =
     takeWhile (\<lambda>c. \<not> is_sentence_end c)
       (dropWhile (\<lambda>c. is_sentence_end c \<or> is_space c) s)"
  by (simp add: first_sentence_of_def is_sentence_end_iff is_space_iff)

lemma takeWhile_of_dropWhile: "takeWhile P (dropWhile P s) = []"
  by (induction s) auto

lemma first_sentence_words:
  "(case count_sentences s of [] \<Rightarrow> [] | s0 # rest \<Rightarrow> words_of s0) = words_of (first_sentence_of s)"
proof (induction is_sentence_end s rule: re_split_class.induct)
  case (1 s)
  let ?E = is_sentence_end
  let ?D = "\<lambda>c. is_sentence_end c \<or> is_space c"
  let ?p0 = "takeWhile (\<lambda>c. \<not> ?E c) s"
  let ?r = "dropWhile (\<lambda>c. \<not> ?E c) s"
  have s: "s = ?p0 @ ?r" by simp
  show ?case
  proof (cases "strip ?p0 = []")
    case False
    then obtain x where x: "x \<in> set ?p0" "\<not> is_space x" by (auto simp: strip_Nil_iff)
    have xD: "\<not> ?D x" using x by (auto dest: set_takeWhileD)
    have "dropWhile ?D (?p0 @ ?r) = dropWhile ?D ?p0 @ ?r"
      using x(1) xD by (rule dropWhile_append1)
    moreover have "dropWhile ?D ?p0 = dropWhile is_space ?p0"
      by (rule dropWhile_cong) (auto dest: set_takeWhileD)
    ultimately have d: "dropWhile ?D s = dropWhile is_space ?p0 @ ?r" by simp
    have "\<forall>c \<in> set (dropWhile is_space ?p0). \<not> ?E c"
      by (auto dest!: set_dropWhileD set_takeWhileD)
    then have "takeWhile (\<lambda>c. \<not> ?E c) (dropWhile is_space ?p0 @ ?r)
        = dropWhile is_space ?p0 @ takeWhile (\<lambda>c. \<not> ?E c) ?r"
      by (simp add: takeWhile_append2)
    then have f: "first_sentence_of s = dropWhile is_space ?p0"
      by (simp only: first_sentence_of_alt d takeWhile_of_dropWhile append_Nil2)
    have "count_sentences s = strip ?p0 # (case ?r of [] \<Rightarrow> []
        | c # cs \<Rightarrow> count_sentences (dropWhile ?E cs))"
      by (simp only: count_sentences_unfold [of s] False simp_thms if_True append_Cons append_Nil)
    then have "(case count_sentences s of [] \<Rightarrow> [] | s0 # rest \<Rightarrow> words_of s0) = words_of (strip ?p0)"
      by simp
    also have "\<dots> = words_of (dropWhile is_space ?p0)"
      by (simp add: words_of_strip words_of_dropWhile)
    finally show ?thesis by (simp only: f)
  next
    case True
    then have sp: "\<forall>c \<in> set ?p0. is_space c" by (simp add: strip_Nil_iff)
    show ?thesis
    proof (cases ?r)
      case Nil
      have "?p0 @ ?r = s" by simp
      then have "?p0 = s" by (simp only: Nil append_Nil2)
      with sp have "\<forall>c \<in> set s. ?D c" by auto
      then have "dropWhile ?D s = []" by (simp add: dropWhile_eq_Nil_conv)
      then have f: "first_sentence_of s = []" by (simp only: first_sentence_of_alt takeWhile.simps)
      have "count_sentences s = []"
        by (simp only: count_sentences_unfold [of s] Nil True list.case simp_thms if_False append_Nil)
      then show ?thesis by (simp add: f words_of_def)
    next
      case (Cons c cs)
      let ?s' = "dropWhile ?E cs"
      have Ec: "?E c" using Cons hd_dropWhile [of "\<lambda>c. \<not> ?E c" s] by auto
      have "?p0 @ ?r = s" by simp
      then have "?p0 @ c # cs = s" by (simp only: Cons)
      moreover have "takeWhile ?E cs @ ?s' = cs" by simp
      ultimately have e: "(?p0 @ c # takeWhile ?E cs) @ ?s' = s" by simp
      have "\<And>y. y \<in> set (?p0 @ c # takeWhile ?E cs) \<Longrightarrow> ?D y"
        using sp Ec by (auto dest: set_takeWhileD)
      then have "dropWhile ?D ((?p0 @ c # takeWhile ?E cs) @ ?s') = dropWhile ?D ?s'"
        by (rule dropWhile_append2)
      then have "dropWhile ?D s = dropWhile ?D ?s'" by (simp only: e)
      then have f: "first_sentence_of s = first_sentence_of ?s'"
        by (simp only: first_sentence_of_alt)
      have "count_sentences s = count_sentences ?s'"
        by (simp only: count_sentences_unfold [of s] Cons True list.case simp_thms if_False append_Nil)
      then show ?thesis using "1.hyps" [OF Cons] by (simp only: f)
    qed
  qed
qed

lemma first_sentence_word_count_eq:
  "first_sentence_word_count s = length (words_of (first_sentence_of s))"
proof -
  have "first_sentence_word_count s
      = length (case count_sentences s of [] \<Rightarrow> [] | s0 # rest \<Rightarrow> words_of s0)"
    by (simp add: first_sentence_word_count_def tokenize_words_eq split: list.splits)
  then show ?thesis by (simp only: first_sentence_words)
qed

lemma newline_is_space: "is_space newline"
  by (simp add: is_space_def newline_def)

lemma strip_Cons_space: "is_space c \<Longrightarrow> (strip (c # p) = []) = (strip p = [])"
  by (simp add: strip_Nil_iff)

lemma strip_Cons_nonspace: "\<not> is_space c \<Longrightarrow> strip (c # p) \<noteq> []"
  by (simp add: strip_Nil_iff)

lemma strip_append_space: "\<forall>c \<in> set w. is_space c \<Longrightarrow> (strip (w @ p) = []) = (strip p = [])"
  by (auto simp: strip_Nil_iff)

lemma re_split_blank_nonempty: "re_split_blank s \<noteq> []"
  by (subst re_split_blank.simps) (simp split: option.splits)

lemma re_split_blank_step:
  assumes "\<not> (c = newline \<and> newline \<in> set (takeWhile is_space s))"
  shows "re_split_blank (c # s) = (c # hd (re_split_blank s)) # tl (re_split_blank s)"
proof (cases "find_blank s")
  case None
  then have "find_blank (c # s) = None" using assms by simp
  then have "re_split_blank (c # s) = [c # s]"
    by (simp only: re_split_blank.simps [of "c # s"] option.case)
  moreover have "re_split_blank s = [s]"
    by (simp only: re_split_blank.simps [of s] None option.case)
  ultimately show ?thesis by simp
next
  case (Some ba)
  obtain b a where ba: "ba = (b, a)" by (cases ba)
  have "find_blank (c # s) = Some (c # b, a)" using assms Some ba by simp
  then have "re_split_blank (c # s) = (c # b) # re_split_blank a"
    by (simp only: re_split_blank.simps [of "c # s"] option.case prod.case)
  moreover have "re_split_blank s = b # re_split_blank a"
    by (simp only: re_split_blank.simps [of s] Some ba option.case prod.case)
  ultimately show ?thesis by simp
qed

lemma re_split_blank_separator:
  assumes "newline \<in> set (takeWhile is_space s)"
  shows "re_split_blank (newline # s) = [] # re_split_blank (after_blank s)"
proof -
  have "find_blank (newline # s) = Some ([], after_blank s)" using assms by simp
  then show ?thesis
    by (simp only: re_split_blank.simps [of "newline # s"] option.case prod.case)
qed

lemma nonblank_count_split:
  "nonblank_count (re_split_blank s) =
     (if strip (hd (re_split_blank s)) \<noteq> [] then 1 else 0) + nonblank_count (tl (re_split_blank s))"
  using re_split_blank_nonempty [of s]
  by (cases "re_split_blank s") (simp_all add: nonblank_count_def)

lemma space_run_append:
  assumes "\<forall>c \<in> set w. is_space c" and "r = [] \<or> \<not> is_space (hd r)"
  shows "takeWhile is_space (w @ r) = w" and "dropWhile is_space (w @ r) = r"
proof -
  have t: "takeWhile is_space r = []" using assms(2) by (cases r) auto
  have d: "dropWhile is_space r = r" using assms(2) by (cases r) auto
  show "takeWhile is_space (w @ r) = w" using assms(1) t by (simp add: takeWhile_append2)
  show "dropWhile is_space (w @ r) = r" using assms(1) d by (simp add: dropWhile_append2)
qed

lemma count_list_pos: "x \<in> set xs \<Longrightarrow> 0 < count_list xs x"
  by (induction xs) auto

lemma count_list_zero: "x \<notin> set xs \<Longrightarrow> count_list xs x = 0"
  by (induction xs) auto

lemma pieces_step_counts:
  assumes "\<not> (c = newline \<and> newline \<in> set (takeWhile is_space s))"
  shows "nonblank_count (tl (re_split_blank (c # s))) = nonblank_count (tl (re_split_blank s))"
    and "is_space c \<Longrightarrow>
           nonblank_count (re_split_blank (c # s)) = nonblank_count (re_split_blank s)"
    and "\<not> is_space c \<Longrightarrow>
           nonblank_count (re_split_blank (c # s)) = 1 + nonblank_count (tl (re_split_blank s))"
proof -
  obtain p ps where ps: "re_split_blank s = p # ps"
    using re_split_blank_nonempty [of s] by (cases "re_split_blank s") auto
  have e: "re_split_blank (c # s) = (c # p) # ps"
    using re_split_blank_step [OF assms] by (simp add: ps)
  show "nonblank_count (tl (re_split_blank (c # s))) = nonblank_count (tl (re_split_blank s))"
    by (simp add: e ps)
  show "nonblank_count (re_split_blank (c # s)) = nonblank_count (re_split_blank s)"
    if "is_space c"
    using that by (simp add: e ps nonblank_count_def strip_Cons_space)
  show "nonblank_count (re_split_blank (c # s)) = 1 + nonblank_count (tl (re_split_blank s))"
    if "\<not> is_space c"
    using that by (simp add: e ps nonblank_count_def strip_Cons_nonspace)
qed

lemma pieces_plain_space:
  assumes "\<forall>c \<in> set w. is_space c \<and> c \<noteq> newline"
  shows "nonblank_count (re_split_blank (w @ r)) = nonblank_count (re_split_blank r)"
  using assms
proof (induction w)
  case Nil
  then show ?case by simp
next
  case (Cons c w)
  have n: "\<not> (c = newline \<and> newline \<in> set (takeWhile is_space (w @ r)))"
    using Cons.prems by simp
  have "nonblank_count (re_split_blank (c # (w @ r))) = nonblank_count (re_split_blank (w @ r))"
    using Cons.prems by (simp add: pieces_step_counts(2) [OF n])
  with Cons show ?case by simp
qed

lemma after_blank_space_run:
  assumes "\<forall>c \<in> set w. is_space c" and "r = [] \<or> \<not> is_space (hd r)"
  shows "after_blank (w @ r) = rev (takeWhile (\<lambda>c. c \<noteq> newline) (rev w)) @ r"
  by (simp add: after_blank_def space_run_append [OF assms])

lemma pieces_space_run:
  assumes "\<forall>c \<in> set w. is_space c" and "r = [] \<or> \<not> is_space (hd r)"
  shows "nonblank_count (re_split_blank (w @ r)) = nonblank_count (re_split_blank r)
     \<and> nonblank_count (tl (re_split_blank (w @ r))) =
         (if 2 \<le> count_list w newline then nonblank_count (re_split_blank r)
          else nonblank_count (tl (re_split_blank r)))"
  using assms(1)
proof (induction w)
  case Nil
  then show ?case by simp
next
  case (Cons c w)
  then have w: "\<forall>c \<in> set w. is_space c" and c: "is_space c" by simp_all
  note IH = Cons.IH [OF w]
  have tw: "takeWhile is_space (w @ r) = w" by (rule space_run_append(1) [OF w assms(2)])
  show ?case
  proof (cases "c = newline \<and> newline \<in> set w")
    case True
    let ?w2 = "rev (takeWhile (\<lambda>c. c \<noteq> newline) (rev w))"
    have "newline \<in> set (takeWhile is_space (w @ r))" using True tw by simp
    then have e: "re_split_blank (newline # (w @ r)) = [] # re_split_blank (after_blank (w @ r))"
      by (rule re_split_blank_separator)
    have a: "after_blank (w @ r) = ?w2 @ r" by (rule after_blank_space_run [OF w assms(2)])
    have "\<forall>c \<in> set ?w2. is_space c \<and> c \<noteq> newline"
      using w by (auto dest: set_takeWhileD)
    then have p: "nonblank_count (re_split_blank (?w2 @ r)) = nonblank_count (re_split_blank r)"
      by (rule pieces_plain_space)
    have "0 < count_list w newline" using True by (simp add: count_list_pos)
    then have k: "2 \<le> count_list (c # w) newline" using True by simp
    have s0: "strip [] = []" by (simp add: strip_def)
    have "nonblank_count (re_split_blank (newline # (w @ r))) = nonblank_count (re_split_blank r)"
      by (simp add: e a p nonblank_count_def s0 del: rev_rev_ident)
         (simp add: p [unfolded nonblank_count_def])
    moreover have "nonblank_count (tl (re_split_blank (newline # (w @ r))))
        = nonblank_count (re_split_blank r)"
      by (simp add: e a p)
    ultimately show ?thesis using True k by simp
  next
    case False
    then have n: "\<not> (c = newline \<and> newline \<in> set (takeWhile is_space (w @ r)))"
      by (simp add: tw)
    have k: "(2 \<le> count_list (c # w) newline) = (2 \<le> count_list w newline)"
    proof (cases "c = newline")
      case True
      with False have "newline \<notin> set w" by simp
      then have "count_list w newline = 0" by (rule count_list_zero)
      with True show ?thesis by simp
    next
      case False
      then show ?thesis by simp
    qed
    have "nonblank_count (re_split_blank (c # (w @ r))) = nonblank_count (re_split_blank (w @ r))"
      using c by (rule pieces_step_counts(2) [OF n])
    moreover have "nonblank_count (tl (re_split_blank (c # (w @ r))))
        = nonblank_count (tl (re_split_blank (w @ r)))"
      by (rule pieces_step_counts(1) [OF n])
    ultimately show ?thesis using IH by (simp only: append_Cons k)
  qed
qed

lemma newline_code: "newline = CHR 0x0A"
  by (simp add: newline_def)

lemma paragraph_scan_space:
  "is_space c \<Longrightarrow>
     paragraph_scan inp k (c # cs) = paragraph_scan inp (if c = newline then k + 1 else k) cs"
  by (simp add: is_space_iff newline_code)

lemma paragraph_scan_nonspace:
  "\<not> is_space c \<Longrightarrow>
     paragraph_scan inp k (c # cs) = (if inp \<and> 2 \<le> k then 1 else 0) + paragraph_scan True 0 cs"
  by (simp add: is_space_iff)

lemma paragraph_scan_run:
  "\<forall>c \<in> set w. is_space c \<Longrightarrow>
     paragraph_scan inp k (w @ r) = paragraph_scan inp (k + count_list w newline) r"
proof (induction w arbitrary: k)
  case Nil
  then show ?case by simp
next
  case (Cons c w)
  then show ?case by (simp add: paragraph_scan_space del: paragraph_scan.simps)
qed

lemma paragraph_scan_closed: "paragraph_scan False k s = paragraph_scan False 0 s"
proof (induction s arbitrary: k)
  case Nil
  then show ?case by simp
next
  case (Cons c cs)
  show ?case
  proof (cases "is_space c")
    case True
    then show ?thesis
      using Cons [of "if c = newline then k + 1 else k"] Cons [of "if c = newline then 0 + 1 else 0"]
      by (simp add: paragraph_scan_space del: paragraph_scan.simps)
  next
    case False
    then show ?thesis by (simp add: paragraph_scan_nonspace del: paragraph_scan.simps)
  qed
qed

lemma split_into_run: "s = takeWhile is_space s @ dropWhile is_space s"
  by simp

lemma dropWhile_space_head:
  "dropWhile is_space s = [] \<or> \<not> is_space (hd (dropWhile is_space s))"
  using hd_dropWhile [of is_space s] by blast

lemma pieces_nonspace:
  assumes "\<not> is_space c"
  shows "nonblank_count (re_split_blank (c # s)) = 1 + nonblank_count (tl (re_split_blank s))"
    and "nonblank_count (tl (re_split_blank (c # s))) = nonblank_count (tl (re_split_blank s))"
proof -
  have n: "\<not> (c = newline \<and> newline \<in> set (takeWhile is_space s))"
    using assms newline_is_space by auto
  show "nonblank_count (re_split_blank (c # s)) = 1 + nonblank_count (tl (re_split_blank s))"
    using assms by (rule pieces_step_counts(3) [OF n])
  show "nonblank_count (tl (re_split_blank (c # s))) = nonblank_count (tl (re_split_blank s))"
    by (rule pieces_step_counts(1) [OF n])
qed

lemma pieces_Nil: "nonblank_count (re_split_blank []) = 0" "nonblank_count (tl (re_split_blank [])) = 0"
proof -
  have "re_split_blank [] = [[]]"
    by (simp only: re_split_blank.simps [of "[]"] find_blank.simps option.case)
  then show "nonblank_count (re_split_blank []) = 0" "nonblank_count (tl (re_split_blank [])) = 0"
    by (simp_all add: nonblank_count_def strip_def)
qed

lemma paragraph_scan_open:
  "paragraph_scan True 0 s = 1 + nonblank_count (tl (re_split_blank s))"
proof (induction s rule: length_induct)
  case (1 s)
  let ?w = "takeWhile is_space s"
  let ?r = "dropWhile is_space s"
  have w: "\<forall>c \<in> set ?w. is_space c" by (auto dest: set_takeWhileD)
  note run = pieces_space_run [OF w dropWhile_space_head [of s], unfolded takeWhile_dropWhile_id]
  have sc: "paragraph_scan True 0 s = paragraph_scan True (count_list ?w newline) ?r"
    using paragraph_scan_run [OF w, of True 0 ?r] by simp
  show ?case
  proof (cases ?r)
    case Nil
    have "paragraph_scan True 0 s = 1" by (simp add: sc Nil)
    moreover have "nonblank_count (tl (re_split_blank s)) = 0"
      using run by (simp add: Nil pieces_Nil)
    ultimately show ?thesis by simp
  next
    case (Cons c r')
    have c: "\<not> is_space c" using Cons hd_dropWhile [of is_space s] by auto
    have "length r' < length s"
      using length_dropWhile_le [of is_space s] by (simp add: Cons)
    then have IH: "paragraph_scan True 0 r' = 1 + nonblank_count (tl (re_split_blank r'))"
      using 1 by blast
    have "paragraph_scan True 0 s
        = (if 2 \<le> count_list ?w newline then 1 else 0) + paragraph_scan True 0 r'"
      by (simp add: sc Cons paragraph_scan_nonspace [OF c] del: paragraph_scan.simps)
    moreover have "nonblank_count (tl (re_split_blank s))
        = (if 2 \<le> count_list ?w newline then 1 + nonblank_count (tl (re_split_blank r'))
           else nonblank_count (tl (re_split_blank r')))"
      using run by (simp add: Cons pieces_nonspace [OF c])
    ultimately show ?thesis using IH by simp
  qed
qed

lemma paragraph_scan_pieces: "paragraph_scan False 0 s = nonblank_count (re_split_blank s)"
proof -
  let ?w = "takeWhile is_space s"
  let ?r = "dropWhile is_space s"
  have w: "\<forall>c \<in> set ?w. is_space c" by (auto dest: set_takeWhileD)
  note run = pieces_space_run [OF w dropWhile_space_head [of s], unfolded takeWhile_dropWhile_id]
  have "paragraph_scan False 0 s = paragraph_scan False (0 + count_list ?w newline) ?r"
    using paragraph_scan_run [OF w, of False 0 ?r] by simp
  then have sc: "paragraph_scan False 0 s = paragraph_scan False 0 ?r"
    by (simp only: paragraph_scan_closed [of "0 + count_list ?w newline"])
  show ?thesis
  proof (cases ?r)
    case Nil
    show ?thesis using run by (simp add: sc Nil pieces_Nil)
  next
    case (Cons c r')
    have c: "\<not> is_space c" using Cons hd_dropWhile [of is_space s] by auto
    have "paragraph_scan False 0 s = paragraph_scan True 0 r'"
      by (simp add: sc Cons paragraph_scan_nonspace [OF c] del: paragraph_scan.simps)
    also have "\<dots> = 1 + nonblank_count (tl (re_split_blank r'))" by (rule paragraph_scan_open)
    also have "\<dots> = nonblank_count (re_split_blank ?r)"
      by (simp add: Cons pieces_nonspace(1) [OF c])
    also have "\<dots> = nonblank_count (re_split_blank s)" using run by simp
    finally show ?thesis .
  qed
qed

lemma paragraph_scan_zero:
  "paragraph_scan inp k s = 0 \<Longrightarrow> \<forall>c \<in> set s. is_space c"
proof (induction s arbitrary: k)
  case Nil
  then show ?case by simp
next
  case (Cons c cs)
  show ?case
  proof (cases "is_space c")
    case True
    with Cons.prems have "paragraph_scan inp (if c = newline then k + 1 else k) cs = 0"
      by (simp only: paragraph_scan_space)
    then have "\<forall>c \<in> set cs. is_space c" by (rule Cons.IH)
    with True show ?thesis by simp
  next
    case False
    have "paragraph_scan True 0 cs \<noteq> 0"
      by (simp add: paragraph_scan_open)
    then have "paragraph_scan inp k (c # cs) \<noteq> 0"
      using False by (simp add: paragraph_scan_nonspace del: paragraph_scan.simps)
    with Cons.prems show ?thesis by simp
  qed
qed

lemma count_paragraphs_eq: "count_paragraphs s = paragraphs_of s"
proof (cases "nonblank_count (re_split_blank s) = 0")
  case True
  then have "paragraph_scan False 0 s = 0" by (simp add: paragraph_scan_pieces)
  then have "\<forall>c \<in> set s. is_space c" by (rule paragraph_scan_zero)
  then have "strip s = []" by (simp add: strip_Nil_iff)
  with True show ?thesis
    by (simp add: count_paragraphs_def paragraphs_of_def paragraph_scan_pieces nonblank_count_def)
next
  case False
  then show ?thesis
    by (simp add: count_paragraphs_def paragraphs_of_def paragraph_scan_pieces nonblank_count_def)
qed

lemma long_words_lower:
  "filter (\<lambda>w. 12 < length w) (map py_lower ws) = map py_lower (filter (\<lambda>w. 12 < length w) ws)"
  by (induction ws) (simp_all add: py_lower_def)

lemma long_word_ratio_eq: "long_word_ratio s = long_word_share s"
proof (cases "words_of s = []")
  case True
  then show ?thesis
    by (simp add: long_word_ratio_def long_word_share_def tokenize_words_eq)
next
  case False
  then have "max (length (words_of s)) 1 = length (words_of s)"
    by (cases "words_of s") simp_all
  with False show ?thesis
    by (simp add: long_word_ratio_def long_word_share_def tokenize_words_eq long_words_lower
        Let_def)
qed

lemma split_at_end: "xs = rev (dropWhile P (rev xs)) @ rev (takeWhile P (rev xs))"
  by (metis rev_append rev_rev_ident takeWhile_dropWhile_id)

lemma strip_tail:
  "dropWhile is_space s = strip s @ rev (takeWhile is_space (rev (dropWhile is_space s)))"
  using split_at_end [of "dropWhile is_space s" is_space] by (simp add: strip_def)

lemma remediation_eq: "join '' '' (misses_of a b c) = remediation a b c"
  by (simp add: misses_of_def remediation_def msg_summary_def msg_jargon_def msg_segments_def
      Let_def)

lemma strip_decomposition:
  "\<exists>w1 w2. s = w1 @ strip s @ w2 \<and> set w1 \<subseteq> set white_space \<and> set w2 \<subseteq> set white_space"
proof -
  let ?d = "dropWhile is_space s"
  let ?w1 = "takeWhile is_space s"
  let ?w2 = "rev (takeWhile is_space (rev ?d))"
  have d: "?d = strip s @ ?w2" by (rule strip_tail)
  have "?w1 @ ?d = s" by simp
  then have "s = ?w1 @ strip s @ ?w2" using d by simp
  moreover have "set ?w1 \<subseteq> set white_space"
    by (auto dest: set_takeWhileD simp: is_space_iff)
  moreover have "set ?w2 \<subseteq> set white_space"
    by (auto dest: set_takeWhileD simp: is_space_iff)
  ultimately show ?thesis by blast
qed

lemma strip_ends:
  assumes "strip s \<noteq> []"
  shows "hd (strip s) \<notin> set white_space \<and> last (strip s) \<notin> set white_space"
proof -
  let ?d = "dropWhile is_space s"
  let ?e = "dropWhile is_space (rev ?d)"
  have e: "?e \<noteq> []" using assms by (simp add: strip_def)
  then have "\<not> is_space (hd ?e)" by (rule hd_dropWhile)
  then have l: "\<not> is_space (last (strip s))" using e by (simp add: strip_def last_rev)
  have dn: "?d \<noteq> []"
  proof
    assume a: "?d = []"
    have "?e = []" by (simp only: a rev.simps dropWhile.simps)
    with e show False by contradiction
  qed
  then have hd: "\<not> is_space (hd ?d)" by (rule hd_dropWhile)
  have "?d = strip s @ rev (takeWhile is_space (rev ?d))" by (rule strip_tail)
  then have "hd ?d = hd (strip s)" using assms by (metis hd_append2)
  with hd l show ?thesis by (simp add: is_space_iff)
qed

text \<open>
  Claim C8. The trimmed text is the thesis without its leading and trailing white
  space. When it is empty the Understandable filter returns Fail with the details
  \<open>Add a concise thesis summary.\<close> Otherwise it returns Pass with
  \<open>Clear one-sentence hook; jargon in check.\<close> exactly when the first sentence has at
  most 30 words, the share of the words longer than 12 characters is at most 0.2 and
  there are at most 2 paragraphs; otherwise Fail, its details the remediation messages
  of the failing conditions joined by a space, in the order summary, jargon, segments.
  Words, first sentence, paragraphs and messages are \<open>words_of\<close>,
  \<open>first_sentence_of\<close>, \<open>paragraphs_of\<close> and \<open>remediation\<close>.
\<close>

theorem understandable_filter_rule:
  "(\<exists>w1 w2. thesis = w1 @ strip thesis @ w2
       \<and> set w1 \<subseteq> set white_space \<and> set w2 \<subseteq> set white_space)
   \<and> (strip thesis \<noteq> [] \<longrightarrow>
        hd (strip thesis) \<notin> set white_space \<and> last (strip thesis) \<notin> set white_space)
   \<and> (strip thesis = [] \<longrightarrow>
        score_understandable thesis =
          Inr \<lparr>status = Fail, details = ''Add a concise thesis summary.'', hits = None\<rparr>)
   \<and> (strip thesis \<noteq> [] \<longrightarrow>
        (let cleaned = strip thesis;
             summary = (length (words_of (first_sentence_of cleaned)) \<le> 30);
             jargon = (long_word_share cleaned \<le> 2 / 10);
             segments = (paragraphs_of cleaned \<le> 2)
         in score_understandable thesis =
              Inr (if summary \<and> jargon \<and> segments
                   then \<lparr>status = Pass, details = ''Clear one-sentence hook; jargon in check.'',
                         hits = None\<rparr>
                   else \<lparr>status = Fail, details = remediation summary jargon segments,
                         hits = None\<rparr>)))"
proof (intro conjI)
  show "\<exists>w1 w2. thesis = w1 @ strip thesis @ w2
       \<and> set w1 \<subseteq> set white_space \<and> set w2 \<subseteq> set white_space"
    by (rule strip_decomposition)
  show "strip thesis \<noteq> [] \<longrightarrow>
        hd (strip thesis) \<notin> set white_space \<and> last (strip thesis) \<notin> set white_space"
    using strip_ends by blast
  show "strip thesis = [] \<longrightarrow>
        score_understandable thesis =
          Inr \<lparr>status = Fail, details = ''Add a concise thesis summary.'', hits = None\<rparr>"
    by (simp add: score_understandable_eq)
  show "strip thesis \<noteq> [] \<longrightarrow>
        (let cleaned = strip thesis;
             summary = (length (words_of (first_sentence_of cleaned)) \<le> 30);
             jargon = (long_word_share cleaned \<le> 2 / 10);
             segments = (paragraphs_of cleaned \<le> 2)
         in score_understandable thesis =
              Inr (if summary \<and> jargon \<and> segments
                   then \<lparr>status = Pass, details = ''Clear one-sentence hook; jargon in check.'',
                         hits = None\<rparr>
                   else \<lparr>status = Fail, details = remediation summary jargon segments,
                         hits = None\<rparr>))"
    by (simp add: score_understandable_eq understandable_verdict_eq remediation_eq
        first_sentence_word_count_eq long_word_ratio_eq count_paragraphs_eq Let_def)
qed

text \<open>
  The rule on a blank thesis; on first sentences of 31 and of 30 words; on two words of
  13 digits, on one long word in five and on a long word with an apostrophe and capital
  letters among four; on three and on two paragraphs; and on a thesis that fails all
  three conditions.
\<close>

theorem understandable_filter_rule_witness:
  "strip ''   '' = []
   \<and> score_understandable ''   '' =
       Inr \<lparr>status = Fail, details = ''Add a concise thesis summary.'', hits = None\<rparr>
   \<and> strip (concat (replicate 31 ''a '') @ ''.'') \<noteq> []
  \<and> length (words_of (first_sentence_of (strip (concat (replicate 31 ''a '') @ ''.'')))) = 31
  \<and> long_word_share (strip (concat (replicate 31 ''a '') @ ''.'')) = 0
  \<and> paragraphs_of (strip (concat (replicate 31 ''a '') @ ''.'')) = 1
   \<and> score_understandable (concat (replicate 31 ''a '') @ ''.'') =
       Inr \<lparr>status = Fail, details = ''Add a <=30 word summary line up top.'', hits = None\<rparr>
   \<and> strip (concat (replicate 30 ''a '') @ ''.'') \<noteq> []
  \<and> length (words_of (first_sentence_of (strip (concat (replicate 30 ''a '') @ ''.'')))) = 30
  \<and> long_word_share (strip (concat (replicate 30 ''a '') @ ''.'')) = 0
  \<and> paragraphs_of (strip (concat (replicate 30 ''a '') @ ''.'')) = 1
   \<and> score_understandable (concat (replicate 30 ''a '') @ ''.'') =
       Inr \<lparr>status = Pass, details = ''Clear one-sentence hook; jargon in check.'', hits = None\<rparr>
   \<and> strip ''1234567890123 1234567890123'' \<noteq> []
  \<and> length (words_of (first_sentence_of (strip ''1234567890123 1234567890123''))) = 2
  \<and> long_word_share (strip ''1234567890123 1234567890123'') = 1
  \<and> paragraphs_of (strip ''1234567890123 1234567890123'') = 1
   \<and> score_understandable ''1234567890123 1234567890123'' =
       Inr \<lparr>status = Fail, details = ''High jargon density'' @ em_dash @ ''clarify plain language.'', hits = None\<rparr>
   \<and> strip ''1234567890123 y y y y'' \<noteq> []
  \<and> length (words_of (first_sentence_of (strip ''1234567890123 y y y y''))) = 5
  \<and> long_word_share (strip ''1234567890123 y y y y'') = 1 / 5
  \<and> paragraphs_of (strip ''1234567890123 y y y y'') = 1
   \<and> score_understandable ''1234567890123 y y y y'' =
       Inr \<lparr>status = Pass, details = ''Clear one-sentence hook; jargon in check.'', hits = None\<rparr>
   \<and> strip ''Shareholders'X y y y'' \<noteq> []
  \<and> length (words_of (first_sentence_of (strip ''Shareholders'X y y y''))) = 4
  \<and> long_word_share (strip ''Shareholders'X y y y'') = 1 / 4
  \<and> paragraphs_of (strip ''Shareholders'X y y y'') = 1
   \<and> score_understandable ''Shareholders'X y y y'' =
       Inr \<lparr>status = Fail, details = ''High jargon density'' @ em_dash @ ''clarify plain language.'', hits = None\<rparr>
   \<and> strip [CHR ''a'', newline, newline, CHR ''b'', newline, newline, CHR ''c''] \<noteq> []
  \<and> length (words_of (first_sentence_of (strip [CHR ''a'', newline, newline, CHR ''b'', newline, newline, CHR ''c'']))) = 3
  \<and> long_word_share (strip [CHR ''a'', newline, newline, CHR ''b'', newline, newline, CHR ''c'']) = 0
  \<and> paragraphs_of (strip [CHR ''a'', newline, newline, CHR ''b'', newline, newline, CHR ''c'']) = 3
   \<and> score_understandable [CHR ''a'', newline, newline, CHR ''b'', newline, newline, CHR ''c''] =
       Inr \<lparr>status = Fail, details = ''Too many disjoint segments'' @ em_dash @ ''tighten focus.'', hits = None\<rparr>
   \<and> strip [CHR ''a'', newline, newline, CHR ''b''] \<noteq> []
  \<and> length (words_of (first_sentence_of (strip [CHR ''a'', newline, newline, CHR ''b'']))) = 2
  \<and> long_word_share (strip [CHR ''a'', newline, newline, CHR ''b'']) = 0
  \<and> paragraphs_of (strip [CHR ''a'', newline, newline, CHR ''b'']) = 2
   \<and> score_understandable [CHR ''a'', newline, newline, CHR ''b''] =
       Inr \<lparr>status = Pass, details = ''Clear one-sentence hook; jargon in check.'', hits = None\<rparr>
   \<and> strip (concat (replicate 31 ''abcdefghijklm '') @ [CHR ''.'', newline, newline, CHR ''b'', newline, newline, CHR ''c'']) \<noteq> []
  \<and> length (words_of (first_sentence_of (strip (concat (replicate 31 ''abcdefghijklm '') @ [CHR ''.'', newline, newline, CHR ''b'', newline, newline, CHR ''c''])))) = 31
  \<and> long_word_share (strip (concat (replicate 31 ''abcdefghijklm '') @ [CHR ''.'', newline, newline, CHR ''b'', newline, newline, CHR ''c''])) = 31 / 33
  \<and> paragraphs_of (strip (concat (replicate 31 ''abcdefghijklm '') @ [CHR ''.'', newline, newline, CHR ''b'', newline, newline, CHR ''c''])) = 3
   \<and> score_understandable (concat (replicate 31 ''abcdefghijklm '') @ [CHR ''.'', newline, newline, CHR ''b'', newline, newline, CHR ''c'']) =
       Inr \<lparr>status = Fail, details = ''Add a <=30 word summary line up top.'' @ '' '' @ ''High jargon density'' @ em_dash @ ''clarify plain language.'' @ '' '' @ ''Too many disjoint segments'' @ em_dash @ ''tighten focus.'', hits = None\<rparr>"
proof -
  have b: "strip ''   '' = []" by code_simp
  from b understandable_filter_rule [of "''   ''"]
  have rb: "score_understandable ''   '' =
       Inr \<lparr>status = Fail, details = ''Add a concise thesis summary.'', hits = None\<rparr>"
    by blast
  have m_t31: "strip (concat (replicate 31 ''a '') @ ''.'') \<noteq> []
      \<and> length (words_of (first_sentence_of (strip (concat (replicate 31 ''a '') @ ''.'')))) = 31
      \<and> long_word_share (strip (concat (replicate 31 ''a '') @ ''.'')) = 0
      \<and> paragraphs_of (strip (concat (replicate 31 ''a '') @ ''.'')) = 1"
    by code_simp
  from m_t31 understandable_filter_rule [of "(concat (replicate 31 ''a '') @ ''.'')"]
  have r_t31: "score_understandable (concat (replicate 31 ''a '') @ ''.'') =
       Inr \<lparr>status = Fail, details = ''Add a <=30 word summary line up top.'', hits = None\<rparr>"
    by (simp add: Let_def remediation_def)
  have m_t30: "strip (concat (replicate 30 ''a '') @ ''.'') \<noteq> []
      \<and> length (words_of (first_sentence_of (strip (concat (replicate 30 ''a '') @ ''.'')))) = 30
      \<and> long_word_share (strip (concat (replicate 30 ''a '') @ ''.'')) = 0
      \<and> paragraphs_of (strip (concat (replicate 30 ''a '') @ ''.'')) = 1"
    by code_simp
  from m_t30 understandable_filter_rule [of "(concat (replicate 30 ''a '') @ ''.'')"]
  have r_t30: "score_understandable (concat (replicate 30 ''a '') @ ''.'') =
       Inr \<lparr>status = Pass, details = ''Clear one-sentence hook; jargon in check.'', hits = None\<rparr>"
    by (simp add: Let_def remediation_def)
  have m_dig: "strip ''1234567890123 1234567890123'' \<noteq> []
      \<and> length (words_of (first_sentence_of (strip ''1234567890123 1234567890123''))) = 2
      \<and> long_word_share (strip ''1234567890123 1234567890123'') = 1
      \<and> paragraphs_of (strip ''1234567890123 1234567890123'') = 1"
    by code_simp
  from m_dig understandable_filter_rule [of "''1234567890123 1234567890123''"]
  have r_dig: "score_understandable ''1234567890123 1234567890123'' =
       Inr \<lparr>status = Fail, details = ''High jargon density'' @ em_dash @ ''clarify plain language.'', hits = None\<rparr>"
    by (simp add: Let_def remediation_def)
  have m_fifth: "strip ''1234567890123 y y y y'' \<noteq> []
      \<and> length (words_of (first_sentence_of (strip ''1234567890123 y y y y''))) = 5
      \<and> long_word_share (strip ''1234567890123 y y y y'') = 1 / 5
      \<and> paragraphs_of (strip ''1234567890123 y y y y'') = 1"
    by code_simp
  from m_fifth understandable_filter_rule [of "''1234567890123 y y y y''"]
  have r_fifth: "score_understandable ''1234567890123 y y y y'' =
       Inr \<lparr>status = Pass, details = ''Clear one-sentence hook; jargon in check.'', hits = None\<rparr>"
    by (simp add: Let_def remediation_def)
  have m_apos: "strip ''Shareholders'X y y y'' \<noteq> []
      \<and> length (words_of (first_sentence_of (strip ''Shareholders'X y y y''))) = 4
      \<and> long_word_share (strip ''Shareholders'X y y y'') = 1 / 4
      \<and> paragraphs_of (strip ''Shareholders'X y y y'') = 1"
    by code_simp
  from m_apos understandable_filter_rule [of "''Shareholders'X y y y''"]
  have r_apos: "score_understandable ''Shareholders'X y y y'' =
       Inr \<lparr>status = Fail, details = ''High jargon density'' @ em_dash @ ''clarify plain language.'', hits = None\<rparr>"
    by (simp add: Let_def remediation_def)
  have m_par3: "strip [CHR ''a'', newline, newline, CHR ''b'', newline, newline, CHR ''c''] \<noteq> []
      \<and> length (words_of (first_sentence_of (strip [CHR ''a'', newline, newline, CHR ''b'', newline, newline, CHR ''c'']))) = 3
      \<and> long_word_share (strip [CHR ''a'', newline, newline, CHR ''b'', newline, newline, CHR ''c'']) = 0
      \<and> paragraphs_of (strip [CHR ''a'', newline, newline, CHR ''b'', newline, newline, CHR ''c'']) = 3"
    by code_simp
  from m_par3 understandable_filter_rule [of "[CHR ''a'', newline, newline, CHR ''b'', newline, newline, CHR ''c'']"]
  have r_par3: "score_understandable [CHR ''a'', newline, newline, CHR ''b'', newline, newline, CHR ''c''] =
       Inr \<lparr>status = Fail, details = ''Too many disjoint segments'' @ em_dash @ ''tighten focus.'', hits = None\<rparr>"
    by (simp add: Let_def remediation_def)
  have m_par2: "strip [CHR ''a'', newline, newline, CHR ''b''] \<noteq> []
      \<and> length (words_of (first_sentence_of (strip [CHR ''a'', newline, newline, CHR ''b'']))) = 2
      \<and> long_word_share (strip [CHR ''a'', newline, newline, CHR ''b'']) = 0
      \<and> paragraphs_of (strip [CHR ''a'', newline, newline, CHR ''b'']) = 2"
    by code_simp
  from m_par2 understandable_filter_rule [of "[CHR ''a'', newline, newline, CHR ''b'']"]
  have r_par2: "score_understandable [CHR ''a'', newline, newline, CHR ''b''] =
       Inr \<lparr>status = Pass, details = ''Clear one-sentence hook; jargon in check.'', hits = None\<rparr>"
    by (simp add: Let_def remediation_def)
  have m_all: "strip (concat (replicate 31 ''abcdefghijklm '') @ [CHR ''.'', newline, newline, CHR ''b'', newline, newline, CHR ''c'']) \<noteq> []
      \<and> length (words_of (first_sentence_of (strip (concat (replicate 31 ''abcdefghijklm '') @ [CHR ''.'', newline, newline, CHR ''b'', newline, newline, CHR ''c''])))) = 31
      \<and> long_word_share (strip (concat (replicate 31 ''abcdefghijklm '') @ [CHR ''.'', newline, newline, CHR ''b'', newline, newline, CHR ''c''])) = 31 / 33
      \<and> paragraphs_of (strip (concat (replicate 31 ''abcdefghijklm '') @ [CHR ''.'', newline, newline, CHR ''b'', newline, newline, CHR ''c''])) = 3"
    by code_simp
  from m_all understandable_filter_rule [of "(concat (replicate 31 ''abcdefghijklm '') @ [CHR ''.'', newline, newline, CHR ''b'', newline, newline, CHR ''c''])"]
  have r_all: "score_understandable (concat (replicate 31 ''abcdefghijklm '') @ [CHR ''.'', newline, newline, CHR ''b'', newline, newline, CHR ''c'']) =
       Inr \<lparr>status = Fail, details = ''Add a <=30 word summary line up top.'' @ '' '' @ ''High jargon density'' @ em_dash @ ''clarify plain language.'' @ '' '' @ ''Too many disjoint segments'' @ em_dash @ ''tighten focus.'', hits = None\<rparr>"
    by (simp add: Let_def remediation_def)
  from b rb m_t31 r_t31 m_t30 r_t30 m_dig r_dig m_fifth r_fifth m_apos r_apos m_par3 r_par3 m_par2 r_par2 m_all r_all show ?thesis by blast
qed

subsection \<open>Margin-of-safety filter\<close>

lemma parse_number_ten: "parse_number fl (Some ''10'') = py_float fl ''10''"
proof -
  have a: "py_lower (strip ''10'') = ''10''" by code_simp
  have b: "re_search_number
      (filter (\<lambda>c. c \<noteq> CHR ''~'') (filter (\<lambda>c. c \<noteq> CHR ''%'') ''10'')) = Some ''10''"
    by code_simp
  show ?thesis by (simp only: parse_number_def option.case Let_def a b) simp
qed

lemma score_margin_eq:
  "score_margin_of_safety fl pe_text fcf_yield_text =
     (case (parse_number fl pe_text, parse_number fl fcf_yield_text) of
        (pe, fcf_yield) \<Rightarrow>
          if (\<exists>p. pe = Some p \<and> float_le fl p 15)
          then \<lparr>status = Pass,
                details = ''P/E '' @ fmt_1f fl (the pe) @ '' within <=15 guardrail.'',
                hits = None\<rparr>
          else if (\<exists>y. fcf_yield = Some y \<and> float_ge fl y 6)
          then \<lparr>status = Pass,
                details = ''FCF yield '' @ fmt_1f fl (the fcf_yield) @ ''% clears >=6% bar.'',
                hits = None\<rparr>
          else if pe \<noteq> None \<or> fcf_yield \<noteq> None
          then \<lparr>status = Fail,
                details = join ''; ''
                  ((case pe of None \<Rightarrow> [] | Some p \<Rightarrow> [''P/E '' @ fmt_1f fl p @ '' > 15'']) @
                   (case fcf_yield of None \<Rightarrow> []
                    | Some y \<Rightarrow> [''FCF yield '' @ fmt_1f fl y @ ''% < 6%''])),
                hits = None\<rparr>
          else \<lparr>status = NeedsData, details = msg_needs_data, hits = None\<rparr>)"
  by (auto simp: score_margin_of_safety_def Let_def split: option.splits)

text \<open>
  Claim C2. The margin-of-safety filter applies its rules in order and the first match
  wins, for every pair of optional inputs and every binary64 arithmetic: if the P/E
  text parses to a number at most 15 the result is Pass; else if the FCF-yield text
  parses to a number at least 6 the result is Pass; else if one of the two parsed the
  result is Fail, its details the rationales of the parsed values joined by a
  semicolon and a space; else the status is NeedsData. With P/E \<open>10\<close> and FCF yield
  \<open>2\<close> the result is Pass as soon as \<open>float("10") <= 15\<close>.
\<close>

theorem margin_of_safety_first_match:
  "(\<forall>p. parse_number fl pe_text = Some p \<and> float_le fl p 15 \<longrightarrow>
        score_margin_of_safety fl pe_text fcf_yield_text =
          \<lparr>status = Pass, details = ''P/E '' @ fmt_1f fl p @ '' within <=15 guardrail.'',
           hits = None\<rparr>)
   \<and> (\<forall>y. \<not> (\<exists>p. parse_number fl pe_text = Some p \<and> float_le fl p 15)
          \<and> parse_number fl fcf_yield_text = Some y \<and> float_ge fl y 6 \<longrightarrow>
        score_margin_of_safety fl pe_text fcf_yield_text =
          \<lparr>status = Pass, details = ''FCF yield '' @ fmt_1f fl y @ ''% clears >=6% bar.'',
           hits = None\<rparr>)
   \<and> (\<not> (\<exists>p. parse_number fl pe_text = Some p \<and> float_le fl p 15)
        \<and> \<not> (\<exists>y. parse_number fl fcf_yield_text = Some y \<and> float_ge fl y 6)
        \<and> (parse_number fl pe_text \<noteq> None \<or> parse_number fl fcf_yield_text \<noteq> None) \<longrightarrow>
        score_margin_of_safety fl pe_text fcf_yield_text =
          \<lparr>status = Fail,
           details = join ''; ''
             ((case parse_number fl pe_text of None \<Rightarrow> []
               | Some p \<Rightarrow> [''P/E '' @ fmt_1f fl p @ '' > 15'']) @
              (case parse_number fl fcf_yield_text of None \<Rightarrow> []
               | Some y \<Rightarrow> [''FCF yield '' @ fmt_1f fl y @ ''% < 6%''])),
           hits = None\<rparr>)
   \<and> (parse_number fl pe_text = None \<and> parse_number fl fcf_yield_text = None \<longrightarrow>
        status (score_margin_of_safety fl pe_text fcf_yield_text) = NeedsData)
   \<and> ((\<exists>p. py_float fl ''10'' = Some p \<and> float_le fl p 15) \<longrightarrow>
        status (score_margin_of_safety fl (Some ''10'') (Some ''2'')) = Pass)"
proof (intro conjI allI impI)
  fix p
  assume "parse_number fl pe_text = Some p \<and> float_le fl p 15"
  then show "score_margin_of_safety fl pe_text fcf_yield_text =
          \<lparr>status = Pass, details = ''P/E '' @ fmt_1f fl p @ '' within <=15 guardrail.'',
           hits = None\<rparr>"
    by (simp add: score_margin_eq)
next
  fix y
  assume "\<not> (\<exists>p. parse_number fl pe_text = Some p \<and> float_le fl p 15)
          \<and> parse_number fl fcf_yield_text = Some y \<and> float_ge fl y 6"
  then show "score_margin_of_safety fl pe_text fcf_yield_text =
          \<lparr>status = Pass, details = ''FCF yield '' @ fmt_1f fl y @ ''% clears >=6% bar.'',
           hits = None\<rparr>"
    by (simp add: score_margin_eq)
next
  assume "\<not> (\<exists>p. parse_number fl pe_text = Some p \<and> float_le fl p 15)
        \<and> \<not> (\<exists>y. parse_number fl fcf_yield_text = Some y \<and> float_ge fl y 6)
        \<and> (parse_number fl pe_text \<noteq> None \<or> parse_number fl fcf_yield_text \<noteq> None)"
  then show "score_margin_of_safety fl pe_text fcf_yield_text =
          \<lparr>status = Fail,
           details = join ''; ''
             ((case parse_number fl pe_text of None \<Rightarrow> []
               | Some p \<Rightarrow> [''P/E '' @ fmt_1f fl p @ '' > 15'']) @
              (case parse_number fl fcf_yield_text of None \<Rightarrow> []
               | Some y \<Rightarrow> [''FCF yield '' @ fmt_1f fl y @ ''% < 6%''])),
           hits = None\<rparr>"
    by (auto simp: score_margin_eq)
next
  assume "parse_number fl pe_text = None \<and> parse_number fl fcf_yield_text = None"
  then show "status (score_margin_of_safety fl pe_text fcf_yield_text) = NeedsData"
    by (simp add: score_margin_eq)
next
  assume "\<exists>p. py_float fl ''10'' = Some p \<and> float_le fl p 15"
  then have "\<exists>p. parse_number fl (Some ''10'') = Some p \<and> float_le fl p 15"
    by (simp only: parse_number_ten)
  then show "status (score_margin_of_safety fl (Some ''10'') (Some ''2'')) = Pass"
    by (auto simp: score_margin_eq)
qed

theorem margin_of_safety_first_match_witness:
  "py_float dec_ops ''10'' = Some 10 \<and> float_le dec_ops 10 15
   \<and> status (score_margin_of_safety dec_ops (Some ''10'') (Some ''2'')) = Pass
   \<and> score_margin_of_safety dec_ops (Some ''10'') (Some ''2'') =
       \<lparr>status = Pass, details = ''P/E 10.0 within <=15 guardrail.'', hits = None\<rparr>
   \<and> score_margin_of_safety dec_ops (Some ''20.5'') (Some ''2%'') =
       \<lparr>status = Fail, details = ''P/E 20.5 > 15; FCF yield 2.0% < 6%'', hits = None\<rparr>
   \<and> score_margin_of_safety dec_ops (Some ''20.5'') (Some ''7'') =
       \<lparr>status = Pass, details = ''FCF yield 7.0% clears >=6% bar.'', hits = None\<rparr>
   \<and> status (score_margin_of_safety dec_ops (Some ''n/a'') None) = NeedsData"
proof -
  have h: "py_float dec_ops ''10'' = Some 10 \<and> float_le dec_ops 10 15" by code_simp
  then have e: "\<exists>p. py_float dec_ops ''10'' = Some p \<and> float_le dec_ops p 15" by blast
  have a: "score_margin_of_safety dec_ops (Some ''10'') (Some ''2'') =
       \<lparr>status = Pass, details = ''P/E 10.0 within <=15 guardrail.'', hits = None\<rparr>" by code_simp
  have b: "score_margin_of_safety dec_ops (Some ''20.5'') (Some ''2%'') =
       \<lparr>status = Fail, details = ''P/E 20.5 > 15; FCF yield 2.0% < 6%'', hits = None\<rparr>" by code_simp
  have c: "score_margin_of_safety dec_ops (Some ''20.5'') (Some ''7'') =
       \<lparr>status = Pass, details = ''FCF yield 7.0% clears >=6% bar.'', hits = None\<rparr>" by code_simp
  have d: "status (score_margin_of_safety dec_ops (Some ''n/a'') None) = NeedsData" by code_simp
  from e margin_of_safety_first_match [of dec_ops]
  have "status (score_margin_of_safety dec_ops (Some ''10'') (Some ''2'')) = Pass" by blast
  with h a b c d show ?thesis by blast
qed

subsection \<open>The whole analysis\<close>

lemma score_understandable_total: "\<exists>u. score_understandable thesis = Inr u"
  by (simp add: score_understandable_eq understandable_verdict_eq Let_def)

lemma filter_names_distinct:
  "distinct [Understandable, Moat, Management, MarginOfSafety]"
  by (simp add: Understandable_def Moat_def Management_def MarginOfSafety_def)

lemma getitem_moat:
  "getitem [(Understandable, u), (Moat, m), (Management, g), (MarginOfSafety, s)] Moat = Inr m"
  by (simp add: getitem_def Understandable_def Moat_def)

lemma four_filters_eq:
  assumes "score_understandable thesis = Inr u"
  shows "four_filters fl thesis pe_text fcf_yield_text =
     (let fs = [(Understandable, u),
                (Moat, score_moat thesis),
                (Management, score_management thesis),
                (MarginOfSafety, score_margin_of_safety fl pe_text fcf_yield_text)]
      in Inr \<lparr>filters = fs,
              invert = invert_question thesis (score_moat thesis),
              biases = rank_biases thesis,
              posture = posture_fn fs,
              copy_text = build_copy fs (invert_question thesis (score_moat thesis))
                            (rank_biases thesis) (posture_fn fs)\<rparr>)"
  by (simp add: four_filters_def assms getitem_moat Let_def)

lemma is_digit_lower_char: "is_digit (lower_char c) = is_digit c"
  by (auto simp: is_digit_def lower_char_def Let_def)

lemma re_search_number_None_iff: "re_search_number s = None \<longleftrightarrow> \<not> list_ex is_digit s"
  by (induction s) (auto simp: neq_Nil_conv)

lemma parse_number_no_digit:
  assumes "\<not> list_ex is_digit raw"
  shows "parse_number fl (Some raw) = None"
proof -
  let ?t = "filter (\<lambda>c. c \<noteq> CHR ''~'') (filter (\<lambda>c. c \<noteq> CHR ''%'') (py_lower (strip raw)))"
  have "\<forall>c \<in> set (strip raw). \<not> is_digit c"
    using assms set_strip_subset [of raw] by (auto simp: list_ex_iff)
  then have "\<forall>c \<in> set (py_lower (strip raw)). \<not> is_digit c"
    by (auto simp: py_lower_def is_digit_lower_char)
  then have "\<not> list_ex is_digit ?t" by (auto simp: list_ex_iff)
  then have "re_search_number ?t = None" by (simp add: re_search_number_None_iff)
  then show ?thesis by (simp add: parse_number_def Let_def)
qed


lemma four_filters_result:
  "\<exists>u snap. score_understandable t = Inr u
     \<and> four_filters fl t pe fcf = Inr snap
     \<and> filters snap = [(Understandable, u), (Moat, score_moat t),
                        (Management, score_management t),
                        (MarginOfSafety, score_margin_of_safety fl pe fcf)]
     \<and> invert snap = invert_question t (score_moat t)
     \<and> biases snap = rank_biases t
     \<and> posture snap = posture_fn (filters snap)"
proof -
  obtain u where u: "score_understandable t = Inr u"
    using score_understandable_total by blast
  show ?thesis
    using four_filters_eq [OF u, of fl pe fcf] u by (simp add: Let_def)
qed

lemma rank_biases_shape:
  "length (rank_biases t) = 3 \<and> distinct (rank_biases t)
   \<and> set (rank_biases t) \<subseteq>
       {''Incentives'', ''Social-Proof'', ''Commitment/Consistency'', ''Authority''}"
proof -
  let ?tf = "triggered_first (map snd BIAS_KEYWORDS) (py_lower t)"
  have len: "length (rank_biases t) = 3"
  proof -
    have "length (map snd BIAS_KEYWORDS) = 4" by (simp add: BIAS_KEYWORDS_def)
    then show ?thesis
      by (simp add: rank_biases_eq triggered_first_props(1) [OF bias_names_distinct])
  qed
  have dis: "distinct (rank_biases t)"
    by (simp add: rank_biases_eq triggered_first_props(2) [OF bias_names_distinct])
  have "set (rank_biases t) \<subseteq> set ?tf"
    by (simp only: rank_biases_eq set_take_subset)
  also have "set ?tf = set (map fst (map snd BIAS_KEYWORDS))"
    by (rule triggered_first_props(3) [OF bias_names_distinct])
  also have "\<dots> = {''Incentives'', ''Social-Proof'', ''Commitment/Consistency'', ''Authority''}"
    by (simp add: BIAS_KEYWORDS_def)
  finally have sub: "set (rank_biases t) \<subseteq>
      {''Incentives'', ''Social-Proof'', ''Commitment/Consistency'', ''Authority''}" .
  from len dis sub show ?thesis by blast
qed

text \<open>
  Claim C9. The analysis raises no error: for every thesis, every pair of optional
  numeric texts and every binary64 arithmetic it returns a snapshot. An absent numeric
  text parses to no value, and so does one that holds no digit; when both parse to no
  value the margin-of-safety verdict, which the snapshot holds under its key, has
  status NeedsData.
\<close>

theorem analyze_never_raises:
  "(\<exists>snap. four_filters fl thesis pe_text fcf_yield_text = Inr snap
       \<and> map_of (filters snap) MarginOfSafety =
           Some (score_margin_of_safety fl pe_text fcf_yield_text))
   \<and> parse_number fl None = None
   \<and> (\<not> list_ex is_digit raw \<longrightarrow> parse_number fl (Some raw) = None)
   \<and> (parse_number fl pe_text = None \<and> parse_number fl fcf_yield_text = None \<longrightarrow>
        status (score_margin_of_safety fl pe_text fcf_yield_text) = NeedsData)"
proof (intro conjI impI)
  have "\<And>u. map_of [(Understandable, u), (Moat, score_moat thesis),
              (Management, score_management thesis),
              (MarginOfSafety, score_margin_of_safety fl pe_text fcf_yield_text)] MarginOfSafety
      = Some (score_margin_of_safety fl pe_text fcf_yield_text)"
    using filter_names_distinct by auto
  with four_filters_result [of thesis fl pe_text fcf_yield_text]
  show "\<exists>snap. four_filters fl thesis pe_text fcf_yield_text = Inr snap
       \<and> map_of (filters snap) MarginOfSafety =
           Some (score_margin_of_safety fl pe_text fcf_yield_text)"
    by auto
next
  show "parse_number fl None = None" by (simp add: parse_number_def)
next
  assume "\<not> list_ex is_digit raw"
  then show "parse_number fl (Some raw) = None" by (rule parse_number_no_digit)
next
  assume "parse_number fl pe_text = None \<and> parse_number fl fcf_yield_text = None"
  then show "status (score_margin_of_safety fl pe_text fcf_yield_text) = NeedsData"
    by (simp add: score_margin_eq)
qed

theorem analyze_never_raises_witness:
  "\<not> list_ex is_digit ''n/a''
   \<and> parse_number dec_ops (Some ''n/a'') = None
   \<and> parse_number dec_ops None = None
   \<and> status (score_margin_of_safety dec_ops (Some ''n/a'') None) = NeedsData
   \<and> (\<exists>snap. four_filters dec_ops ''?!'' (Some ''n/a'') None = Inr snap
         \<and> map_of (filters snap) MarginOfSafety =
             Some (score_margin_of_safety dec_ops (Some ''n/a'') None))"
proof -
  have h: "\<not> list_ex is_digit ''n/a''" by code_simp
  note t = analyze_never_raises [of dec_ops "''?!''" "Some ''n/a''" None "''n/a''"]
  from h t have a: "parse_number dec_ops (Some ''n/a'') = None" by blast
  from t have b: "parse_number dec_ops None = None" by blast
  from a b t have c: "status (score_margin_of_safety dec_ops (Some ''n/a'') None) = NeedsData"
    by blast
  from t have d: "\<exists>snap. four_filters dec_ops ''?!'' (Some ''n/a'') None = Inr snap
         \<and> map_of (filters snap) MarginOfSafety =
             Some (score_margin_of_safety dec_ops (Some ''n/a'') None)"
    by blast
  from h a b c d show ?thesis by blast
qed

text \<open>
  Claim C1. For every thesis and every pair of optional numeric texts the analysis
  returns a snapshot whose filters have exactly the four keys Understandable, Moat,
  Management and MarginOfSafety, and whose bias risks are exactly 3 pairwise distinct
  names among the 4 bias categories.
\<close>

theorem snapshot_shape:
  "\<exists>snap. four_filters fl thesis pe_text fcf_yield_text = Inr snap
     \<and> map fst (filters snap) = [Understandable, Moat, Management, MarginOfSafety]
     \<and> distinct (map fst (filters snap))
     \<and> length (biases snap) = 3
     \<and> distinct (biases snap)
     \<and> set (biases snap) \<subseteq>
         {''Incentives'', ''Social-Proof'', ''Commitment/Consistency'', ''Authority''}"
  using four_filters_result [of thesis fl pe_text fcf_yield_text]
    rank_biases_shape [of thesis] filter_names_distinct
  by auto

theorem snapshot_shape_witness:
  "(\<exists>snap. four_filters dec_ops ''Founder-led brand.'' (Some ''10'') None = Inr snap
     \<and> map fst (filters snap) = [Understandable, Moat, Management, MarginOfSafety]
     \<and> distinct (map fst (filters snap))
     \<and> length (biases snap) = 3
     \<and> distinct (biases snap)
     \<and> set (biases snap) \<subseteq>
         {''Incentives'', ''Social-Proof'', ''Commitment/Consistency'', ''Authority''})
   \<and> rank_biases ''Founder-led brand.'' = [''Incentives'', ''Social-Proof'', ''Commitment/Consistency'']"
proof -
  have v: "rank_biases ''Founder-led brand.'' = [''Incentives'', ''Social-Proof'', ''Commitment/Consistency'']"
    by code_simp
  from v snapshot_shape [of dec_ops "''Founder-led brand.''" "Some ''10''" None]
  show ?thesis by blast
qed

end
